theory Spec2Isabelle
  imports Main "HOL-Library.Sublist"
begin

text \<open>
  The block document engine of the planner: the URL sanitizers, the persistent block store
  of \<open>DataManager\<close> (create, update, cascading delete, reorder), the in-memory collection and
  page of \<open>BlockManager\<close> (create, update, convert, markdown shortcuts), the block menu, and the
  inline markdown of the editor. The definitions follow the JavaScript sources; the
  properties proved about them come after all definitions.
\<close>

section \<open>Strings and the platform's URL constructor\<close>

text \<open>
  A JavaScript string is modelled as a \<open>string\<close>; a \<open>char\<close> stands for one code unit
  below 256. \<open>String.prototype.trim\<close> removes white space and line terminators from both
  ends; in this range these are TAB, LF, VT, FF, CR, SPACE and NBSP.
\<close>

definition isWhiteSpace :: "char \<Rightarrow> bool" where
  "isWhiteSpace c =
     (c \<in> set [CHR 0x09, CHR 0x0A, CHR 0x0B, CHR 0x0C, CHR 0x0D, CHR '' '', CHR 0xA0])"

definition strip :: "(char \<Rightarrow> bool) \<Rightarrow> string \<Rightarrow> string" where
  "strip W s = rev (dropWhile W (rev (dropWhile W s)))"

definition trim :: "string \<Rightarrow> string" where
  "trim s = strip isWhiteSpace s"

definition asciiUpper :: string where
  "asciiUpper = ''ABCDEFGHIJKLMNOPQRSTUVWXYZ''"

definition asciiLower :: string where
  "asciiLower = ''abcdefghijklmnopqrstuvwxyz''"

definition asciiDigit :: string where
  "asciiDigit = ''0123456789''"

definition isAlpha :: "char \<Rightarrow> bool" where
  "isAlpha c = (c \<in> set (asciiUpper @ asciiLower))"

definition isSchemeChar :: "char \<Rightarrow> bool" where
  "isSchemeChar c = (c \<in> set (asciiUpper @ asciiLower @ asciiDigit @ ''+-.''))"

definition toLower :: "char \<Rightarrow> char" where
  "toLower c = (case map_of (zip asciiUpper asciiLower) c of Some l \<Rightarrow> l | None \<Rightarrow> c)"

definition isC0OrSpace :: "char \<Rightarrow> bool" where
  "isC0OrSpace c = ((of_char c :: nat) \<le> 0x20)"

definition isTabOrNewline :: "char \<Rightarrow> bool" where
  "isTabOrNewline c = (c \<in> set [CHR 0x09, CHR 0x0A, CHR 0x0D])"

text \<open>
  \<open>new URL(s)\<close> is the browser's parser, not code of the repository. Of a parsed URL the
  sanitizers read \<open>protocol\<close> only, which is the scheme followed by a colon. The model
  follows the URL Standard as far as the scheme: leading and trailing C0 controls and
  spaces are stripped, tabs and newlines are removed, the first character must be an ASCII
  letter, and the scheme runs over letters, digits, \<open>+\<close>, \<open>-\<close> and \<open>.\<close> up to the first colon,
  in lower case. Without a base URL an input with no scheme fails. Whether the rest of
  the input parses is the parameter \<open>valid\<close>. The result is \<open>None\<close> where the constructor
  throws.
\<close>

definition url_input :: "string \<Rightarrow> string" where
  "url_input s = filter (\<lambda>c. \<not> isTabOrNewline c) (strip isC0OrSpace s)"

fun scheme_state :: "string \<Rightarrow> string \<Rightarrow> string option" where
  "scheme_state buffer [] = None"
| "scheme_state buffer (c # cs) =
     (if isSchemeChar c then scheme_state (buffer @ [toLower c]) cs
      else if c = CHR '':'' then Some buffer
      else None)"

definition scheme_start_state :: "string \<Rightarrow> string option" where
  "scheme_start_state s =
     (case s of
        [] \<Rightarrow> None
      | c # cs \<Rightarrow> if isAlpha c then scheme_state [toLower c] cs else None)"

definition url_scheme :: "string \<Rightarrow> string option" where
  "url_scheme s = scheme_start_state (url_input s)"

definition URL_protocol :: "(string \<Rightarrow> bool) \<Rightarrow> string \<Rightarrow> string option" where
  "URL_protocol valid s =
     (if valid s then map_option (\<lambda>scheme. scheme @ '':'') (url_scheme s) else None)"

subsection \<open>sanitizeUrl\<close>

text \<open>
  The argument of \<open>sanitizeUrl\<close> is any JavaScript value; \<open>JOther\<close> stands for every value
  whose \<open>typeof\<close> is not \<open>'string'\<close>. The empty string is falsy, so the first guard rejects
  it. \<open>new_URL\<close> gives the protocol of the parsed URL.
\<close>

datatype js_value = JString string | JOther

definition sanitizeUrl :: "(string \<Rightarrow> string option) \<Rightarrow> js_value \<Rightarrow> bool \<Rightarrow> string" where
  "sanitizeUrl new_URL url allowDataUri =
     (case url of
        JOther \<Rightarrow> ''''
      | JString u \<Rightarrow>
          if u = '''' then ''''
          else
            let trimmed = trim u in
            if allowDataUri \<and> prefix ''data:image/'' trimmed then trimmed
            else
              (case new_URL trimmed of
                 Some protocol \<Rightarrow>
                   if protocol = ''http:'' \<or> protocol = ''https:'' then trimmed else ''''
               | None \<Rightarrow> ''''))"

text \<open>The editor's own copy of the sanitizer has no data URI branch.\<close>

definition Editor_sanitizeUrl :: "(string \<Rightarrow> string option) \<Rightarrow> js_value \<Rightarrow> string" where
  "Editor_sanitizeUrl new_URL url =
     (case url of
        JOther \<Rightarrow> ''''
      | JString u \<Rightarrow>
          if u = '''' then ''''
          else
            let trimmed = trim u in
            (case new_URL trimmed of
               Some protocol \<Rightarrow>
                 if protocol = ''http:'' \<or> protocol = ''https:'' then trimmed else ''''
             | None \<Rightarrow> ''''))"

section \<open>Blocks and the persistent store\<close>

text \<open>
  A block record as \<open>DataManager.createBlock\<close> builds it. \<open>parentId\<close> is \<open>None\<close> for
  JavaScript's \<open>null\<close>. Time stamps (ISO strings of \<open>new Date()\<close>) are abstract numbers, and
  the type and the properties of a block are left as the code has them: a string and a
  mapping from keys to values.
\<close>

type_synonym block_id = string
type_synonym page_id = string
type_synonym timestamp = nat
type_synonym props = "(string \<times> string) list"

record block =
  id' :: block_id
  pageId :: page_id
  parentId :: "block_id option"
  type' :: string
  content :: string
  properties :: props
  order :: int
  createdAt :: timestamp
  updatedAt :: timestamp

text \<open>
  The \<open>data\<close> argument of \<open>updateBlock\<close> is an object holding any subset of the fields;
  \<open>{ ...block, ...data }\<close> overrides the fields that are present.
\<close>

record patch =
  p_id :: "block_id option"
  p_pageId :: "page_id option"
  p_parentId :: "block_id option option"
  p_type :: "string option"
  p_content :: "string option"
  p_properties :: "props option"
  p_order :: "int option"
  p_createdAt :: "timestamp option"
  p_updatedAt :: "timestamp option"

definition no_patch :: patch where
  "no_patch = \<lparr>p_id = None, p_pageId = None, p_parentId = None, p_type = None,
     p_content = None, p_properties = None, p_order = None, p_createdAt = None,
     p_updatedAt = None\<rparr>"

definition spread :: "block \<Rightarrow> patch \<Rightarrow> block" where
  "spread b d =
     \<lparr>id' = (case p_id d of None \<Rightarrow> id' b | Some v \<Rightarrow> v),
      pageId = (case p_pageId d of None \<Rightarrow> pageId b | Some v \<Rightarrow> v),
      parentId = (case p_parentId d of None \<Rightarrow> parentId b | Some v \<Rightarrow> v),
      type' = (case p_type d of None \<Rightarrow> type' b | Some v \<Rightarrow> v),
      content = (case p_content d of None \<Rightarrow> content b | Some v \<Rightarrow> v),
      properties = (case p_properties d of None \<Rightarrow> properties b | Some v \<Rightarrow> v),
      order = (case p_order d of None \<Rightarrow> order b | Some v \<Rightarrow> v),
      createdAt = (case p_createdAt d of None \<Rightarrow> createdAt b | Some v \<Rightarrow> v),
      updatedAt = (case p_updatedAt d of None \<Rightarrow> updatedAt b | Some v \<Rightarrow> v)\<rparr>"

text \<open>
  The \<open>blocks\<close> object store of IndexedDB, keyed by \<open>id\<close>, together with the sequence of
  write requests sent to it. IndexedDB delivers the records of an index in key order; the
  list keeps them in the order of insertion, and nothing proved below depends on the order
  among the records. \<open>db_add\<close>, \<open>db_get\<close>, \<open>db_getByIndex\<close>, \<open>db_update\<close> and
  \<open>db_delete\<close> are \<open>_add\<close>, \<open>_get\<close>, \<open>_getByIndex\<close>, \<open>_update\<close> and \<open>_delete\<close> on that
  store: \<open>add\<close> rejects a key that is present, \<open>put\<close> replaces or inserts, \<open>delete\<close> of an
  absent key succeeds.
\<close>

datatype request = Add block | Put block | Delete block_id

record database =
  blocksStore :: "block list"
  requests :: "request list"

datatype error = BlockNotFound | ConstraintError

definition db_get :: "database \<Rightarrow> block_id \<Rightarrow> block option" where
  "db_get db i = find (\<lambda>b. id' b = i) (blocksStore db)"

definition db_getByIndex_pageId :: "database \<Rightarrow> page_id \<Rightarrow> block list" where
  "db_getByIndex_pageId db p = filter (\<lambda>b. pageId b = p) (blocksStore db)"

definition db_getByIndex_parentId :: "database \<Rightarrow> block_id \<Rightarrow> block list" where
  "db_getByIndex_parentId db i = filter (\<lambda>b. parentId b = Some i) (blocksStore db)"

definition db_add :: "database \<Rightarrow> block \<Rightarrow> error + database" where
  "db_add db b =
     (if id' b \<in> id' ` set (blocksStore db) then Inl ConstraintError
      else Inr (db\<lparr>blocksStore := blocksStore db @ [b], requests := requests db @ [Add b]\<rparr>))"

definition db_update :: "database \<Rightarrow> block \<Rightarrow> database" where
  "db_update db b =
     db\<lparr>blocksStore :=
          (if id' b \<in> id' ` set (blocksStore db)
           then map (\<lambda>x. if id' x = id' b then b else x) (blocksStore db)
           else blocksStore db @ [b]),
        requests := requests db @ [Put b]\<rparr>"

definition db_delete :: "database \<Rightarrow> block_id \<Rightarrow> database" where
  "db_delete db i =
     db\<lparr>blocksStore := filter (\<lambda>b. id' b \<noteq> i) (blocksStore db),
        requests := requests db @ [Delete i]\<rparr>"

subsection \<open>DataManager\<close>

text \<open>
  The argument of \<open>DataManager.createBlock\<close>; \<open>x || d\<close> takes the default \<open>d\<close> when the field
  is missing or falsy (the empty string, zero). The fresh id of \<open>Utils.generateId\<close> and the
  time read by \<open>new Date()\<close> are arguments.
\<close>

record block_data =
  d_pageId :: page_id
  d_parentId :: "block_id option"
  d_type :: "string option"
  d_content :: "string option"
  d_properties :: "props option"
  d_order :: "int option"

definition or_default :: "string option \<Rightarrow> string \<Rightarrow> string" where
  "or_default v d = (case v of None \<Rightarrow> d | Some s \<Rightarrow> if s = '''' then d else s)"

definition DataManager_createBlock ::
  "block_id \<Rightarrow> timestamp \<Rightarrow> database \<Rightarrow> block_data \<Rightarrow> error + (database \<times> block)" where
  "DataManager_createBlock newId now db d =
     (let block =
        \<lparr>id' = newId,
         pageId = d_pageId d,
         parentId = (case d_parentId d of None \<Rightarrow> None
                      | Some p \<Rightarrow> if p = '''' then None else Some p),
         type' = or_default (d_type d) ''paragraph'',
         content = or_default (d_content d) '''',
         properties = (case d_properties d of None \<Rightarrow> [] | Some ps \<Rightarrow> ps),
         order = (case d_order d of None \<Rightarrow> 0 | Some k \<Rightarrow> k),
         createdAt = now,
         updatedAt = now\<rparr>
      in case db_add db block of Inl e \<Rightarrow> Inl e | Inr db' \<Rightarrow> Inr (db', block))"

definition getBlocks :: "database \<Rightarrow> page_id \<Rightarrow> block list" where
  "getBlocks db p = sort_key order (db_getByIndex_pageId db p)"

definition DataManager_updateBlock ::
  "timestamp \<Rightarrow> database \<Rightarrow> block_id \<Rightarrow> patch \<Rightarrow> error + database" where
  "DataManager_updateBlock now db i d =
     (case db_get db i of
        None \<Rightarrow> Inl BlockNotFound
      | Some block \<Rightarrow> Inr (db_update db ((spread block d)\<lparr>updatedAt := now\<rparr>)))"

text \<open>
  \<open>deleteBlock\<close> calls itself on every child found through the \<open>parentId\<close> index, and the
  chain of calls need not end when parent links form a cycle. The first argument bounds
  the depth of the recursion; \<open>None\<close> means that the bound was reached.
\<close>

fun for_each :: "(database \<Rightarrow> 'a \<Rightarrow> database option) \<Rightarrow> 'a list \<Rightarrow> database \<Rightarrow> database option" where
  "for_each f [] db = Some db"
| "for_each f (x # xs) db = (case f db x of None \<Rightarrow> None | Some db' \<Rightarrow> for_each f xs db')"

primrec DataManager_deleteBlock :: "nat \<Rightarrow> database \<Rightarrow> block_id \<Rightarrow> database option" where
  "DataManager_deleteBlock 0 db i = None"
| "DataManager_deleteBlock (Suc n) db i =
     (let children = db_getByIndex_parentId db i in
      case for_each (DataManager_deleteBlock n) (map id' children) db of
        None \<Rightarrow> None
      | Some db' \<Rightarrow> Some (db_delete db' i))"

text \<open>
  The loop of \<open>reorderBlocks\<close> over \<open>i\<close>, with \<open>clock i\<close> the time read in round \<open>i\<close>.
  \<open>blocks\<close> is fetched once, before the loop.
\<close>

definition order_patch :: "int \<Rightarrow> patch" where
  "order_patch k = no_patch\<lparr>p_order := Some k\<rparr>"

fun reorder_loop ::
  "(nat \<Rightarrow> timestamp) \<Rightarrow> block list \<Rightarrow> block_id list \<Rightarrow> nat \<Rightarrow> database \<Rightarrow> error + database" where
  "reorder_loop clock blocks [] i db = Inr db"
| "reorder_loop clock blocks (x # xs) i db =
     (case find (\<lambda>b. id' b = x) blocks of
        None \<Rightarrow> reorder_loop clock blocks xs (Suc i) db
      | Some block \<Rightarrow>
          (case DataManager_updateBlock (clock i) db (id' block) (order_patch (int i)) of
             Inl e \<Rightarrow> Inl e
           | Inr db' \<Rightarrow> reorder_loop clock blocks xs (Suc i) db'))"

definition DataManager_reorderBlocks ::
  "(nat \<Rightarrow> timestamp) \<Rightarrow> database \<Rightarrow> page_id \<Rightarrow> block_id list \<Rightarrow> error + database" where
  "DataManager_reorderBlocks clock db p orderedIds =
     reorder_loop clock (getBlocks db p) orderedIds 0 db"

text \<open>
  The descendants of a block: the stored blocks whose chain of \<open>parentId\<close> links leads to it.
\<close>

inductive descendant :: "block list \<Rightarrow> block_id \<Rightarrow> block_id \<Rightarrow> bool"
  for s :: "block list" and a :: block_id where
  child: "b \<in> set s \<Longrightarrow> parentId b = Some a \<Longrightarrow> descendant s a (id' b)"
| step: "descendant s a p \<Longrightarrow> b \<in> set s \<Longrightarrow> parentId b = Some p \<Longrightarrow> descendant s a (id' b)"

code_pred descendant .

definition descendants :: "block list \<Rightarrow> block_id \<Rightarrow> block_id set" where
  "descendants s a = {d. descendant s a d}"

definition acyclic_store :: "block list \<Rightarrow> bool" where
  "acyclic_store s = (\<forall>x. \<not> descendant s x x)"

section \<open>BlockManager\<close>

text \<open>
  The state of the page editor: the id of the open page (\<open>app.state\<close>), the map
  \<open>this.blocks\<close> from ids to block records, the \<open>.block\<close> elements inside \<open>#pageContent\<close> in
  document order, the store behind \<open>app.data\<close>, and the block menu. Of a block element the
  code reads \<open>dataset.blockId\<close> and the text of its \<open>.block-content\<close> child, if it has one; the
  type is kept from its class \<open>block-<type>\<close>. Focus, styling and the placeholder are not part
  of the state.
\<close>

record element =
  blockId :: "block_id option"
  blockType :: string
  textContent :: "string option"

record block_menu =
  isOpen :: bool
  selectedIndex :: int
  targetBlock :: "nat option"

record app =
  currentPage :: "page_id option"
  blocks :: "block_id \<rightharpoonup> block"
  pageContent :: "element list"
  data :: database
  blockMenu :: block_menu

text \<open>
  An asynchronous method either resolves with a value or rejects with the error thrown;
  both leave a state behind.
\<close>

datatype 'a outcome = Resolved 'a app | Rejected error app

fun outcome_state :: "'a outcome \<Rightarrow> app" where
  "outcome_state (Resolved v st) = st"
| "outcome_state (Rejected e st) = st"

text \<open>
  \<open>renderBlockContent\<close> gives every type an editable \<open>.block-content\<close> holding the block's
  content, except the divider, the image and the bookmark, which have none.
\<close>

definition has_content :: "string \<Rightarrow> bool" where
  "has_content t = (t \<notin> set [''divider'', ''image'', ''bookmark''])"

definition renderBlock :: "block \<Rightarrow> element" where
  "renderBlock blockData =
     \<lparr>blockId = Some (id' blockData),
      blockType = type' blockData,
      textContent = (if has_content (type' blockData) then Some (content blockData) else None)\<rparr>"

text \<open>\<open>document.querySelector('[data-block-id=...]')\<close>: the position of the first match.\<close>

fun querySelector :: "element list \<Rightarrow> block_id \<Rightarrow> nat option" where
  "querySelector [] i = None"
| "querySelector (e # es) i =
     (if blockId e = Some i then Some 0 else map_option Suc (querySelector es i))"

text \<open>
  The \<open>afterBlock\<close> argument of \<open>createBlock\<close> is an element, of which the code reads
  \<open>dataset.blockId\<close> and \<open>parentNode\<close> (here its position in the page, if it is attached), or a
  plain id. An empty string is falsy: as reference it counts as none, as \<open>dataset.blockId\<close> it
  makes the lookup fall back to the element, which is no key of the map, and as id of the
  open page it makes \<open>createBlock\<close> return \<open>null\<close>.
\<close>

datatype block_ref = Element "block_id option" "nat option" | Key string

definition truthy_ref :: "block_ref option \<Rightarrow> bool" where
  "truthy_ref r = (case r of None \<Rightarrow> False | Some (Key k) \<Rightarrow> k \<noteq> '''' | Some (Element _ _) \<Rightarrow> True)"

definition ref_block :: "(block_id \<rightharpoonup> block) \<Rightarrow> block_ref \<Rightarrow> block option" where
  "ref_block m r =
     (case r of
        Key k \<Rightarrow> m k
      | Element None _ \<Rightarrow> None
      | Element (Some i) _ \<Rightarrow> if i = '''' then None else m i)"

definition insert_element :: "block_ref option \<Rightarrow> element \<Rightarrow> element list \<Rightarrow> element list" where
  "insert_element afterBlock blockEl els =
     (case afterBlock of
        Some (Element _ (Some k)) \<Rightarrow> take (Suc k) els @ [blockEl] @ drop (Suc k) els
      | _ \<Rightarrow> els @ [blockEl])"

definition BlockManager_createBlock ::
  "block_id \<Rightarrow> timestamp \<Rightarrow> app \<Rightarrow> string \<Rightarrow> string option \<Rightarrow> block_ref option \<Rightarrow> props
     \<Rightarrow> element option outcome" where
  "BlockManager_createBlock newId now st type content' afterBlock options =
     (case currentPage st of
        None \<Rightarrow> Resolved None st
      | Some pageId' \<Rightarrow>
          if pageId' = [] then Resolved None st
          else
          let order' =
                (if truthy_ref afterBlock then
                   (case ref_block (blocks st) (the afterBlock) of
                      Some afterBlockData \<Rightarrow> order afterBlockData + 1
                    | None \<Rightarrow> 0)
                 else int (card (dom (blocks st))))
          in case DataManager_createBlock newId now (data st)
                 \<lparr>d_pageId = pageId', d_parentId = None, d_type = Some type, d_content = content',
                  d_properties = Some options, d_order = Some order'\<rparr> of
               Inl e \<Rightarrow> Rejected e st
             | Inr (db', blockData) \<Rightarrow>
                 let blockEl = renderBlock blockData in
                 Resolved (Some blockEl)
                   (st\<lparr>blocks := (blocks st)(id' blockData \<mapsto> blockData),
                       pageContent := insert_element afterBlock blockEl (pageContent st),
                       data := db'\<rparr>))"

definition BlockManager_updateBlock :: "timestamp \<Rightarrow> app \<Rightarrow> block_id \<Rightarrow> patch \<Rightarrow> unit outcome" where
  "BlockManager_updateBlock now st i d =
     (case blocks st i of
        None \<Rightarrow> Resolved () st
      | Some blockData \<Rightarrow>
          let updated = spread blockData d;
              st' = st\<lparr>blocks := (blocks st)(i \<mapsto> updated)\<rparr>
          in case DataManager_updateBlock now (data st') i d of
               Inl e \<Rightarrow> Rejected e st'
             | Inr db' \<Rightarrow> Resolved () (st'\<lparr>data := db'\<rparr>))"

text \<open>
  \<open>convertBlock\<close> runs up to its \<open>await\<close> at once: it looks the record and the element up and
  sets the type of the record in \<open>this.blocks\<close>. After the write to the store has completed it
  renders the record anew and puts the new element in the place of the old one.
\<close>

definition type_patch :: "string \<Rightarrow> patch" where
  "type_patch t = no_patch\<lparr>p_type := Some t\<rparr>"

definition convertBlock_begin :: "app \<Rightarrow> block_id \<Rightarrow> string \<Rightarrow> app \<times> (nat \<times> block) option" where
  "convertBlock_begin st i newType =
     (case blocks st i of
        None \<Rightarrow> (st, None)
      | Some blockData \<Rightarrow>
          (case querySelector (pageContent st) i of
             None \<Rightarrow> (st, None)
           | Some k \<Rightarrow>
               let blockData' = blockData\<lparr>type' := newType\<rparr> in
               (st\<lparr>blocks := (blocks st)(i \<mapsto> blockData')\<rparr>, Some (k, blockData'))))"

definition convertBlock_resume :: "timestamp \<Rightarrow> app \<Rightarrow> block_id \<Rightarrow> string \<Rightarrow> nat \<times> block \<Rightarrow> unit outcome" where
  "convertBlock_resume now st i newType pending =
     (case DataManager_updateBlock now (data st) i (type_patch newType) of
        Inl e \<Rightarrow> Rejected e st
      | Inr db' \<Rightarrow>
          Resolved ()
            (st\<lparr>data := db',
                pageContent := (pageContent st)[fst pending := renderBlock (snd pending)]\<rparr>))"

definition convertBlock :: "timestamp \<Rightarrow> app \<Rightarrow> block_id \<Rightarrow> string \<Rightarrow> unit outcome" where
  "convertBlock now st i newType =
     (case convertBlock_begin st i newType of
        (st', None) \<Rightarrow> Resolved () st'
      | (st', Some pending) \<Rightarrow> convertBlock_resume now st' i newType pending)"

text \<open>A run of \<open>convertBlock\<close> calls on one block, each awaited, with the time of each.\<close>

fun convert_all :: "app \<Rightarrow> block_id \<Rightarrow> (timestamp \<times> string) list \<Rightarrow> unit outcome" where
  "convert_all st i [] = Resolved () st"
| "convert_all st i ((now, t) # ts) =
     (case convertBlock now st i t of
        Rejected e st' \<Rightarrow> Rejected e st'
      | Resolved u st' \<Rightarrow> convert_all st' i ts)"

text \<open>
  \<open>checkMarkdownShortcut\<close> for a space typed in the block element at position \<open>k\<close> of the
  page (the handler is given an element of the page, so \<open>k\<close> is within the list).
  \<open>convertBlock\<close> is called and not awaited: the handler clears the text of the element it
  was given right after the call, and the rest of \<open>convertBlock\<close> runs when the write has
  completed. The result holds whether the default action of the key was prevented.
\<close>

definition shortcuts :: "(string \<times> string) list" where
  "shortcuts =
     [(''#'', ''heading1''), (''##'', ''heading2''), (''###'', ''heading3''),
      (''-'', ''bulleted_list''), (''*'', ''bulleted_list''), (''1.'', ''numbered_list''),
      (''[]'', ''todo''), (''[ ]'', ''todo''), (''>'', ''toggle''), ([CHR 0x22], ''quote''),
      (''---'', ''divider''), (''```'', ''code'')]"

definition checkMarkdownShortcut :: "timestamp \<Rightarrow> app \<Rightarrow> nat \<Rightarrow> bool outcome" where
  "checkMarkdownShortcut now st k =
     (let block = pageContent st ! k in
      case textContent block of
        None \<Rightarrow> Resolved False st
      | Some text \<Rightarrow>
          (case find (\<lambda>(shortcut, type). text = shortcut) shortcuts of
             None \<Rightarrow> Resolved False st
           | Some (shortcut, type) \<Rightarrow>
               let (st1, pending) =
                     (case blockId block of
                        None \<Rightarrow> (st, None)
                      | Some i \<Rightarrow> convertBlock_begin st i type);
                   st2 = st1\<lparr>pageContent := (pageContent st1)[k := block\<lparr>textContent := Some ''''\<rparr>]\<rparr>
               in case pending of
                    None \<Rightarrow> Resolved True st2
                  | Some p \<Rightarrow>
                      (case convertBlock_resume now st2 (the (blockId block)) type p of
                         Rejected e st3 \<Rightarrow> Rejected e st3
                       | Resolved u st3 \<Rightarrow> Resolved True st3)))"

section \<open>BlockMenu\<close>

text \<open>The block types of \<open>getBlockTypes\<close>; the menu renders one item for each.\<close>

definition blockTypes :: "string list" where
  "blockTypes =
     [''paragraph'', ''heading1'', ''heading2'', ''heading3'', ''bulleted_list'',
      ''numbered_list'', ''todo'', ''toggle'', ''quote'', ''callout'', ''divider'', ''code'',
      ''image'', ''bookmark'', ''table'', ''database'']"

definition BlockMenu_show :: "app \<Rightarrow> nat \<Rightarrow> app" where
  "BlockMenu_show st k = st\<lparr>blockMenu := \<lparr>isOpen = True, selectedIndex = 0, targetBlock = Some k\<rparr>\<rparr>"

definition BlockMenu_hide :: "app \<Rightarrow> app" where
  "BlockMenu_hide st = st\<lparr>blockMenu := (blockMenu st)\<lparr>isOpen := False, targetBlock := None\<rparr>\<rparr>"

text \<open>
  \<open>selectType\<close>: a lone slash in the target is removed; an empty target that carries an id
  is converted, otherwise a block is created after the target; then the menu is hidden.
  When the awaited call rejects, \<open>hide\<close> is not reached. The target is the element at the
  position given to \<open>show\<close>.
\<close>

definition BlockMenu_selectType :: "block_id \<Rightarrow> timestamp \<Rightarrow> app \<Rightarrow> string \<Rightarrow> unit outcome" where
  "BlockMenu_selectType newId now st type =
     (case targetBlock (blockMenu st) of
        None \<Rightarrow> Resolved () (BlockMenu_hide st)
      | Some k \<Rightarrow>
          let target = pageContent st ! k;
              target' = (if textContent target = Some ''/'' then target\<lparr>textContent := Some ''''\<rparr>
                         else target);
              st1 = st\<lparr>pageContent := (pageContent st)[k := target']\<rparr>
          in
            if blockId target' \<noteq> None \<and> blockId target' \<noteq> Some '''' \<and> textContent target' = Some ''''
            then
              (case convertBlock now st1 (the (blockId target')) type of
                 Rejected e st2 \<Rightarrow> Rejected e st2
               | Resolved u st2 \<Rightarrow> Resolved () (BlockMenu_hide st2))
            else
              (case BlockManager_createBlock newId now st1 type (Some '''')
                      (Some (Element (blockId target') (Some k))) [] of
                 Rejected e st2 \<Rightarrow> Rejected e st2
               | Resolved newBlock st2 \<Rightarrow> Resolved () (BlockMenu_hide st2)))"

text \<open>
  The \<open>keydown\<close> listener of the menu, over the rendered items; \<open>items[selectedIndex]\<close> is
  undefined outside the list. The \<open>click\<close> listener of the document hides an open menu when
  the click is outside it.
\<close>

datatype key = Escape | ArrowDown | ArrowUp | Enter | OtherKey

definition item_at :: "string list \<Rightarrow> int \<Rightarrow> string option" where
  "item_at items k = (if 0 \<le> k \<and> k < int (length items) then Some (items ! nat k) else None)"

definition BlockMenu_keydown ::
  "block_id \<Rightarrow> timestamp \<Rightarrow> string list \<Rightarrow> app \<Rightarrow> key \<Rightarrow> unit outcome" where
  "BlockMenu_keydown newId now items st e =
     (let menu = blockMenu st in
      if \<not> isOpen menu then Resolved () st
      else
        (case e of
           Escape \<Rightarrow> Resolved () (BlockMenu_hide st)
         | ArrowDown \<Rightarrow>
             Resolved ()
               (st\<lparr>blockMenu := menu\<lparr>selectedIndex :=
                     min (selectedIndex menu + 1) (int (length items) - 1)\<rparr>\<rparr>)
         | ArrowUp \<Rightarrow>
             Resolved () (st\<lparr>blockMenu := menu\<lparr>selectedIndex := max (selectedIndex menu - 1) 0\<rparr>\<rparr>)
         | Enter \<Rightarrow>
             (case item_at items (selectedIndex menu) of
                None \<Rightarrow> Resolved () st
              | Some type \<Rightarrow> BlockMenu_selectType newId now st type)
         | OtherKey \<Rightarrow> Resolved () st))"

definition BlockMenu_click_outside :: "app \<Rightarrow> app" where
  "BlockMenu_click_outside st = (if isOpen (blockMenu st) then BlockMenu_hide st else st)"

text \<open>A run of arrow keys; none of them can reject.\<close>

fun press_keys :: "block_id \<Rightarrow> timestamp \<Rightarrow> string list \<Rightarrow> app \<Rightarrow> key list \<Rightarrow> app" where
  "press_keys newId now items st [] = st"
| "press_keys newId now items st (e # es) =
     press_keys newId now items (outcome_state (BlockMenu_keydown newId now items st e)) es"

section \<open>Editor: inline markdown\<close>

text \<open>
  The trailing patterns of \<open>checkInlineMarkdown\<close>. Six of them have the shape
  \<open>d([^c]+)d$\<close>, where the delimiter \<open>d\<close> is one or two copies of the character \<open>c\<close>; the seventh is
  the link \<open>\[([^\]]+)\]\(([^)]+)\)$\<close>. A match that starts at the head of a string: the
  group \<open>[^c]+\<close> has to run up to the next \<open>c\<close>, since the character after it must be \<open>c\<close>, and
  \<open>$\<close> asks for the end of the text. The result is the matched text and the groups.
\<close>

definition delimited_here :: "string \<Rightarrow> char \<Rightarrow> string \<Rightarrow> (string \<times> string list) option" where
  "delimited_here d c s =
     (if prefix d s then
        (let r = drop (length d) s;
             body = takeWhile (\<lambda>x. x \<noteq> c) r;
             rest = dropWhile (\<lambda>x. x \<noteq> c) r
         in if body \<noteq> [] \<and> rest = d then Some (d @ body @ d, [body]) else None)
      else None)"

definition link_here :: "string \<Rightarrow> (string \<times> string list) option" where
  "link_here s =
     (if prefix ''['' s then
        (let r = drop 1 s;
             linkText = takeWhile (\<lambda>x. x \<noteq> CHR '']'') r;
             r1 = dropWhile (\<lambda>x. x \<noteq> CHR '']'') r
         in if linkText \<noteq> [] \<and> prefix '']('' r1 then
              (let r2 = drop 2 r1;
                   linkUrl = takeWhile (\<lambda>x. x \<noteq> CHR '')'') r2;
                   r3 = dropWhile (\<lambda>x. x \<noteq> CHR '')'') r2
               in if linkUrl \<noteq> [] \<and> r3 = '')''
                  then Some (''['' @ linkText @ '']('' @ linkUrl @ '')'', [linkText, linkUrl])
                  else None)
            else None)
      else None)"

text \<open>\<open>String.prototype.match\<close> tries the start positions from the left.\<close>

fun match_from_left ::
  "(string \<Rightarrow> (string \<times> string list) option) \<Rightarrow> string \<Rightarrow> (string \<times> string list) option" where
  "match_from_left here [] = here []"
| "match_from_left here (x # xs) =
     (case here (x # xs) of
        Some m \<Rightarrow> Some m
      | None \<Rightarrow> match_from_left here xs)"

datatype format = Bold | Italic | Strikethrough | Code | Link

record pattern =
  regex :: "string \<Rightarrow> (string \<times> string list) option"
  format :: format
  wrapper :: string

definition patterns :: "pattern list" where
  "patterns =
     [\<lparr>regex = match_from_left (delimited_here ''**'' CHR ''*''), format = Bold, wrapper = ''strong''\<rparr>,
      \<lparr>regex = match_from_left (delimited_here ''__'' CHR ''_''), format = Bold, wrapper = ''strong''\<rparr>,
      \<lparr>regex = match_from_left (delimited_here ''*'' CHR ''*''), format = Italic, wrapper = ''em''\<rparr>,
      \<lparr>regex = match_from_left (delimited_here ''_'' CHR ''_''), format = Italic, wrapper = ''em''\<rparr>,
      \<lparr>regex = match_from_left (delimited_here ''~~'' CHR ''~''), format = Strikethrough, wrapper = ''s''\<rparr>,
      \<lparr>regex = match_from_left (delimited_here ''`'' CHR ''`''), format = Code, wrapper = ''code''\<rparr>,
      \<lparr>regex = match_from_left link_here, format = Link, wrapper = ''''\<rparr>]"

text \<open>
  The selection: \<open>None\<close> when there is no range, else whether the start container is a text
  node, its text and the start offset. The outcome tells whether the default action of the
  key was prevented, what stands in the place of the text node (the node as it was, or the
  text before the match, the new element and the text after the cursor) and where the caret
  is: the handler leaves the selection alone when it inserts nothing, and puts the caret
  right after the new element otherwise (\<open>setStartAfter\<close>). An anchor carries its \<open>href\<close>;
  the other elements carry none.
\<close>

record selection =
  isTextNode :: bool
  nodeText :: string
  startOffset :: nat

record inline_element =
  tagName :: string
  elementText :: string
  href :: "string option"

datatype replacement = Untouched | Inserted string inline_element string

datatype caret = Unmoved | AfterInserted

record markdown_result =
  defaultPrevented :: bool
  replaced :: replacement
  caret :: caret

fun first_match :: "pattern list \<Rightarrow> string \<Rightarrow> (pattern \<times> string \<times> string list) option" where
  "first_match [] textBefore = None"
| "first_match (p # ps) textBefore =
     (case regex p textBefore of
        Some (m0, groups) \<Rightarrow> Some (p, m0, groups)
      | None \<Rightarrow> first_match ps textBefore)"

definition checkInlineMarkdown :: "(string \<Rightarrow> string option) \<Rightarrow> selection option \<Rightarrow> markdown_result" where
  "checkInlineMarkdown new_URL sel =
     (case sel of
        None \<Rightarrow> \<lparr>defaultPrevented = False, replaced = Untouched, caret = Unmoved\<rparr>
      | Some rng \<Rightarrow>
          if \<not> isTextNode rng
          then \<lparr>defaultPrevented = False, replaced = Untouched, caret = Unmoved\<rparr>
          else
            let text = nodeText rng;
                cursorPos = startOffset rng;
                textBefore = take cursorPos text
            in case first_match patterns textBefore of
                 None \<Rightarrow> \<lparr>defaultPrevented = False, replaced = Untouched, caret = Unmoved\<rparr>
               | Some (p, m0, groups) \<Rightarrow>
                   let beforeMatch = take (cursorPos - length m0) text;
                       afterMatch = drop cursorPos text
                   in if format p = Link then
                        (let linkText = groups ! 0;
                             linkUrl = groups ! 1;
                             sanitizedUrl = Editor_sanitizeUrl new_URL (JString linkUrl)
                         in if sanitizedUrl = ''''
                            then \<lparr>defaultPrevented = True, replaced = Untouched,
                                  caret = Unmoved\<rparr>
                            else \<lparr>defaultPrevented = True,
                                  replaced = Inserted beforeMatch
                                    \<lparr>tagName = ''a'', elementText = linkText, href = Some sanitizedUrl\<rparr>
                                    afterMatch,
                                  caret = AfterInserted\<rparr>)
                      else
                        \<lparr>defaultPrevented = True,
                         replaced = Inserted beforeMatch
                           \<lparr>tagName = wrapper p, elementText = groups ! 0, href = None\<rparr>
                           afterMatch,
                         caret = AfterInserted\<rparr>)"

subsection \<open>An example store\<close>

text \<open>
  Four blocks of page \<open>p1\<close>: \<open>a\<close> with child \<open>b\<close> and grandchild \<open>c\<close>, and a separate block \<open>d\<close>.
\<close>

definition example_block :: "block_id \<Rightarrow> block_id option \<Rightarrow> int \<Rightarrow> block" where
  "example_block i p k =
     \<lparr>id' = i, pageId = ''p1'', parentId = p, type' = ''paragraph'', content = '''',
      properties = [], order = k, createdAt = 0, updatedAt = 0\<rparr>"

definition example_db :: database where
  "example_db =
     \<lparr>blocksStore =
        [example_block ''a'' None 0, example_block ''b'' (Some ''a'') 1,
         example_block ''c'' (Some ''b'') 2, example_block ''d'' None 3],
      requests = []\<rparr>"

subsection \<open>Example editor states\<close>

text \<open>
  The page \<open>p1\<close> open with the four blocks of the example store loaded, and a page with one
  paragraph whose typed text \<open>##\<close> has been saved already. A to-do block that is checked.
\<close>

definition closed_menu :: block_menu where
  "closed_menu = \<lparr>isOpen = False, selectedIndex = 0, targetBlock = None\<rparr>"

definition example_app :: app where
  "example_app =
     \<lparr>currentPage = Some ''p1'',
      blocks = map_of (map (\<lambda>b. (id' b, b)) (blocksStore example_db)),
      pageContent = map renderBlock (blocksStore example_db),
      data = example_db,
      blockMenu = closed_menu\<rparr>"

definition typed_block :: block where
  "typed_block = (example_block ''a'' None 0)\<lparr>content := ''##''\<rparr>"

definition typed_app :: app where
  "typed_app =
     \<lparr>currentPage = Some ''p1'',
      blocks = [''a'' \<mapsto> typed_block],
      pageContent = [renderBlock typed_block],
      data = \<lparr>blocksStore = [typed_block], requests = []\<rparr>,
      blockMenu = closed_menu\<rparr>"

definition todo_block :: block where
  "todo_block = (example_block ''t'' None 0)\<lparr>type' := ''todo'', content := ''buy milk'',
     properties := [(''checked'', ''true'')]\<rparr>"

definition todo_app :: app where
  "todo_app =
     \<lparr>currentPage = Some ''p1'',
      blocks = [''t'' \<mapsto> todo_block],
      pageContent = [renderBlock todo_block],
      data = \<lparr>blocksStore = [todo_block], requests = []\<rparr>,
      blockMenu = closed_menu\<rparr>"

text \<open>The paragraph that the menu creates after the typed block, at time 9 with the id \<open>n1\<close>.\<close>

definition new_paragraph :: block where
  "new_paragraph =
     \<lparr>id' = ''n1'', pageId = ''p1'', parentId = None, type' = ''paragraph'', content = [],
      properties = [], order = 1, createdAt = 9, updatedAt = 9\<rparr>"

text \<open>
  The sibling count of the specification: the number of blocks of a collection that have a
  given parent.
\<close>

definition sibling_count :: "(block_id \<rightharpoonup> block) \<Rightarrow> block_id option \<Rightarrow> nat" where
  "sibling_count m parent = card {i. \<exists>x. m i = Some x \<and> parentId x = parent}"

subsection \<open>Auxiliary notions for the proofs\<close>

text \<open>
  A set of ids that contains the descendants of its members, and a store without the
  records of a set of ids.
\<close>

definition closed :: "block list \<Rightarrow> block_id set \<Rightarrow> bool" where
  "closed s X = (\<forall>a\<in>X. descendants s a \<subseteq> X)"

definition without :: "block list \<Rightarrow> block_id set \<Rightarrow> block list" where
  "without s X = filter (\<lambda>b. id' b \<notin> X) s"

text \<open>
  A sequence of deleted ids in which every id comes after all of its descendants, apart
  from those in a set \<open>X\<close> that went before.
\<close>

definition post_order :: "block list \<Rightarrow> block_id set \<Rightarrow> block_id list \<Rightarrow> bool" where
  "post_order s X tr = (\<forall>j<length tr. descendants s (tr ! j) \<subseteq> X \<union> set (take j tr))"

text \<open>
  What the loop of \<open>reorderBlocks\<close> does to one stored record: every round whose id is the
  record's id, and belongs to the page, overwrites \<open>order\<close> and \<open>updatedAt\<close>.
\<close>

fun apply_order :: "(nat \<Rightarrow> timestamp) \<Rightarrow> block_id set \<Rightarrow> block_id list \<Rightarrow> nat \<Rightarrow> block \<Rightarrow> block" where
  "apply_order clock P [] i b = b"
| "apply_order clock P (x # xs) i b =
     apply_order clock P xs (Suc i)
       (if x \<in> P \<and> id' b = x then b\<lparr>order := int i, updatedAt := clock i\<rparr> else b)"

text \<open>The writes of the loop: the listed ids that belong to the page, each with its index.\<close>

fun listed :: "block_id set \<Rightarrow> block_id list \<Rightarrow> nat \<Rightarrow> (block_id \<times> int) list" where
  "listed P [] i = []"
| "listed P (x # xs) i = (if x \<in> P then [(x, int i)] else []) @ listed P xs (Suc i)"

section \<open>Properties of the sanitizer\<close>

lemma strip_Nil [simp]: "strip W [] = []"
  by (simp add: strip_def)

lemma trim_Nil [simp]: "trim [] = []"
  by (simp add: trim_def)

lemma prefix_strip:
  assumes "prefix p s" and "p \<noteq> []" and "\<not> W (hd p)" and "\<not> W (last p)"
  shows "prefix p (strip W s)"
proof -
  from assms(1) obtain r where s: "s = p @ r"
    by (auto simp: prefix_def)
  from assms(2) obtain x xs where p: "p = x # xs"
    by (cases p) auto
  with assms(3) have front: "dropWhile W s = s"
    by (simp add: s)
  have tail: "\<exists>q. dropWhile W (rev r @ rev p) = q @ rev p"
  proof (cases "\<forall>c\<in>set (rev r). W c")
    case True
    obtain y ys where yp: "rev p = y # ys"
      using assms(2) by (cases "rev p") auto
    have "hd (rev p) = last p"
      using assms(2) by (simp add: hd_rev)
    then have "\<not> W y"
      using assms(4) yp by simp
    then have "dropWhile W (rev p) = rev p"
      by (simp add: yp)
    with True have "dropWhile W (rev r @ rev p) = [] @ rev p"
      by (simp add: dropWhile_append)
    then show ?thesis by blast
  next
    case False
    then have "dropWhile W (rev r @ rev p) = dropWhile W (rev r) @ rev p"
      by (auto simp: dropWhile_append)
    then show ?thesis by blast
  qed
  then obtain q where "dropWhile W (rev r @ rev p) = q @ rev p" ..
  moreover have "strip W s = rev (dropWhile W (rev s))"
    by (simp add: strip_def front)
  ultimately have "strip W s = p @ rev q"
    by (simp add: s)
  then show ?thesis by simp
qed

lemma prefix_data_trim:
  "prefix ''data:image/'' url \<Longrightarrow> prefix ''data:image/'' (trim url)"
  unfolding trim_def by (rule prefix_strip) (simp_all add: isWhiteSpace_def)

lemma prefix_data_url_input:
  assumes "prefix ''data:image/'' s"
  shows "prefix ''data:image/'' (url_input s)"
proof -
  have "prefix ''data:image/'' (strip isC0OrSpace s)"
    using assms by (rule prefix_strip) (simp_all add: isC0OrSpace_def)
  then obtain r where "strip isC0OrSpace s = ''data:image/'' @ r"
    by (auto simp: prefix_def)
  then show ?thesis
    by (simp add: url_input_def isTabOrNewline_def)
qed

lemma url_scheme_data:
  assumes "prefix ''data:image/'' s"
  shows "url_scheme s = Some ''data''"
proof -
  from prefix_data_url_input [OF assms] obtain r where "url_input s = ''data:image/'' @ r"
    by (auto simp: prefix_def)
  then show ?thesis
    by (simp add: url_scheme_def scheme_start_state_def isAlpha_def isSchemeChar_def
        toLower_def asciiUpper_def asciiLower_def asciiDigit_def)
qed

lemma Editor_sanitizeUrl_eq: "Editor_sanitizeUrl P url = sanitizeUrl P url False"
  by (simp add: Editor_sanitizeUrl_def sanitizeUrl_def Let_def split: js_value.splits)

lemma sanitizeUrl_javascript:
  "sanitizeUrl (URL_protocol valid) (JString ''javascript:alert(1)'') allowDataUri = ''''"
  by (simp add: sanitizeUrl_def Let_def URL_protocol_def url_scheme_def url_input_def strip_def
      trim_def isWhiteSpace_def isC0OrSpace_def isTabOrNewline_def scheme_start_state_def
      isAlpha_def isSchemeChar_def toLower_def asciiUpper_def asciiLower_def asciiDigit_def)

lemma sanitizeUrl_https_example:
  "valid ''https://example.com'' \<Longrightarrow>
   sanitizeUrl (URL_protocol valid) (JString ''https://example.com'') allowDataUri
     = ''https://example.com''"
  by (simp add: sanitizeUrl_def Let_def URL_protocol_def url_scheme_def url_input_def strip_def
      trim_def isWhiteSpace_def isC0OrSpace_def isTabOrNewline_def scheme_start_state_def
      isAlpha_def isSchemeChar_def toLower_def asciiUpper_def asciiLower_def asciiDigit_def)

text \<open>
  Claim C1. \<open>sanitizeUrl\<close> returns the trimmed input exactly when the input parses as a URL
  whose scheme is http or https, and the empty string otherwise: for non-strings, for the
  empty string, and for every string that does not parse or has another scheme. With
  \<open>allowDataUri\<close> a string that starts with \<open>data:image/\<close> is accepted as well (trimmed, and
  not empty); without it the same string is rejected. The editor's sanitizer is the one
  without data URIs.
\<close>

theorem sanitizeUrl_contract:
  "sanitizeUrl (URL_protocol valid) (JString url) False =
     (if valid (trim url) \<and> (url_scheme (trim url) = Some ''http'' \<or> url_scheme (trim url) = Some ''https'')
      then trim url else '''')
   \<and> sanitizeUrl (URL_protocol valid) JOther allowDataUri = ''''
   \<and> sanitizeUrl (URL_protocol valid) (JString '''') allowDataUri = ''''
   \<and> (prefix ''data:image/'' url \<longrightarrow>
        sanitizeUrl (URL_protocol valid) (JString url) True = trim url \<and> trim url \<noteq> ''''
        \<and> sanitizeUrl (URL_protocol valid) (JString url) False = '''')
   \<and> (prefix ''data:image/'' (trim url) \<longrightarrow>
        sanitizeUrl (URL_protocol valid) (JString url) True = trim url)
   \<and> (\<not> prefix ''data:image/'' (trim url) \<longrightarrow>
        sanitizeUrl (URL_protocol valid) (JString url) True
          = sanitizeUrl (URL_protocol valid) (JString url) False)
   \<and> Editor_sanitizeUrl (URL_protocol valid) (JString url)
        = sanitizeUrl (URL_protocol valid) (JString url) False"
proof -
  have http: "sanitizeUrl (URL_protocol valid) (JString url) False =
     (if valid (trim url) \<and> (url_scheme (trim url) = Some ''http'' \<or> url_scheme (trim url) = Some ''https'')
      then trim url else '''')"
    by (cases "url_scheme (trim url)") (auto simp: sanitizeUrl_def Let_def URL_protocol_def)
  have data: "sanitizeUrl (URL_protocol valid) (JString url) True = trim url \<and> trim url \<noteq> ''''
        \<and> sanitizeUrl (URL_protocol valid) (JString url) False = ''''"
    if p: "prefix ''data:image/'' url"
  proof -
    have t: "prefix ''data:image/'' (trim url)"
      using p by (rule prefix_data_trim)
    then have ne: "trim url \<noteq> ''''" by auto
    have "url \<noteq> ''''" using p by auto
    then have acc: "sanitizeUrl (URL_protocol valid) (JString url) True = trim url"
      using t by (simp add: sanitizeUrl_def Let_def)
    have "url_scheme (trim url) = Some ''data''"
      using t by (rule url_scheme_data)
    then have "sanitizeUrl (URL_protocol valid) (JString url) False = ''''"
      by (simp add: http)
    with acc ne show ?thesis by simp
  qed
  have same: "sanitizeUrl (URL_protocol valid) (JString url) True
          = sanitizeUrl (URL_protocol valid) (JString url) False"
    if "\<not> prefix ''data:image/'' (trim url)"
    using that by (simp add: sanitizeUrl_def Let_def)
  have trimmed: "sanitizeUrl (URL_protocol valid) (JString url) True = trim url"
    if "prefix ''data:image/'' (trim url)"
  proof -
    from that have "trim url \<noteq> ''''" by auto
    then have "url \<noteq> ''''" by auto
    with that show ?thesis by (simp add: sanitizeUrl_def Let_def)
  qed
  have other: "sanitizeUrl (URL_protocol valid) JOther allowDataUri = ''''"
    "sanitizeUrl (URL_protocol valid) (JString '''') allowDataUri = ''''"
    by (simp_all add: sanitizeUrl_def)
  from http other data trimmed same Editor_sanitizeUrl_eq [of "URL_protocol valid" "JString url"]
  show ?thesis by (intro conjI impI) simp_all
qed

theorem sanitizeUrl_contract_witness:
  "prefix ''data:image/'' ''data:image/png;base64,AAAA''
   \<and> sanitizeUrl (URL_protocol (\<lambda>s. True)) (JString ''data:image/png;base64,AAAA'') True
       = ''data:image/png;base64,AAAA''
   \<and> sanitizeUrl (URL_protocol (\<lambda>s. True)) (JString ''data:image/png;base64,AAAA'') False = ''''
   \<and> sanitizeUrl (URL_protocol (\<lambda>s. True)) (JString ''  https://example.com '') False
       = ''https://example.com''"
proof -
  have t: "trim ''data:image/png;base64,AAAA'' = ''data:image/png;base64,AAAA''"
    by (simp add: trim_def strip_def isWhiteSpace_def)
  have d: "url_scheme ''data:image/png;base64,AAAA'' = Some ''data''"
    by (rule url_scheme_data) simp
  have h: "url_scheme ''https://example.com'' = Some ''https''"
    by (simp add: url_scheme_def url_input_def strip_def
      trim_def isWhiteSpace_def isC0OrSpace_def isTabOrNewline_def scheme_start_state_def
      isAlpha_def isSchemeChar_def toLower_def asciiUpper_def asciiLower_def asciiDigit_def)
  have t2: "trim ''  https://example.com '' = ''https://example.com''"
    by (simp add: trim_def strip_def isWhiteSpace_def)
  show ?thesis
    using sanitizeUrl_contract [of "\<lambda>s. True" "''data:image/png;base64,AAAA''" False]
      sanitizeUrl_contract [of "\<lambda>s. True" "''  https://example.com ''" False]
    by (simp add: t d h t2)
qed

section \<open>Cascading deletion\<close>

lemma descendant_id_in_store: "descendant s a d \<Longrightarrow> d \<in> id' ` set s"
  by (induction rule: descendant.induct) auto

lemma descendants_subset_ids: "descendants s a \<subseteq> id' ` set s"
  by (auto simp: descendants_def dest: descendant_id_in_store)

lemma finite_descendants: "finite (descendants s a)"
  by (rule finite_subset [OF descendants_subset_ids]) simp

lemma descendant_trans: "descendant s b c \<Longrightarrow> descendant s a b \<Longrightarrow> descendant s a c"
  by (induction rule: descendant.induct) (auto intro: descendant.intros)

lemma descendant_first:
  "descendant s a d \<Longrightarrow>
     \<exists>b\<in>set s. parentId b = Some a \<and> (id' b = d \<or> descendant s (id' b) d)"
proof (induction rule: descendant.induct)
  case (child b)
  then show ?case by blast
next
  case (step p b)
  then obtain c where c: "c \<in> set s" "parentId c = Some a"
    "id' c = p \<or> descendant s (id' c) p" by blast
  from c(3) have "descendant s (id' c) (id' b)"
  proof
    assume "id' c = p"
    with step(2,3) show ?thesis by (auto intro: descendant.child)
  next
    assume "descendant s (id' c) p"
    with step(2,3) show ?thesis by (auto intro: descendant.step)
  qed
  with c(1,2) show ?case by blast
qed

lemma descendants_unfold:
  "descendants s a =
     (\<Union>c \<in> id' ` {b \<in> set s. parentId b = Some a}. insert c (descendants s c))"
proof (rule set_eqI, rule iffI)
  fix d
  assume "d \<in> descendants s a"
  then have "descendant s a d" by (simp add: descendants_def)
  from descendant_first [OF this] show
    "d \<in> (\<Union>c \<in> id' ` {b \<in> set s. parentId b = Some a}. insert c (descendants s c))"
    by (auto simp: descendants_def)
next
  fix d
  assume "d \<in> (\<Union>c \<in> id' ` {b \<in> set s. parentId b = Some a}. insert c (descendants s c))"
  then obtain b where b: "b \<in> set s" "parentId b = Some a"
    "d = id' b \<or> descendant s (id' b) d"
    by (auto simp: descendants_def)
  have "descendant s a (id' b)"
    using b(1,2) by (rule descendant.child)
  with b(3) have "descendant s a d"
    by (auto intro: descendant_trans)
  then show "d \<in> descendants s a" by (simp add: descendants_def)
qed

lemma descendant_without_mono: "descendant (without s X) a d \<Longrightarrow> descendant s a d"
  by (induction rule: descendant.induct) (auto simp: without_def intro: descendant.intros)

lemma descendant_without:
  assumes "closed s X"
  shows "descendant s a d \<Longrightarrow> d \<notin> X \<Longrightarrow> descendant (without s X) a d"
proof (induction rule: descendant.induct)
  case (child b)
  then show ?case by (auto simp: without_def intro: descendant.child)
next
  case (step p b)
  have "p \<notin> X"
  proof
    assume "p \<in> X"
    with assms have "descendants s p \<subseteq> X" by (simp add: closed_def)
    moreover have "id' b \<in> descendants s p"
      using step(2,3) by (auto simp: descendants_def intro: descendant.child)
    ultimately show False using step(5) by auto
  qed
  with step have "descendant (without s X) a p" by simp
  moreover have "b \<in> set (without s X)"
    using step(2,5) by (simp add: without_def)
  ultimately show ?case
    using step(3) by (auto intro: descendant.step)
qed

lemma descendants_without:
  assumes "closed s X"
  shows "descendants (without s X) a = descendants s a - X"
proof -
  have "d \<notin> X" if "descendant (without s X) a d" for d
    using descendant_id_in_store [OF that] by (auto simp: without_def)
  then show ?thesis
    using descendant_without [OF assms] descendant_without_mono
    by (auto simp: descendants_def)
qed

lemma acyclic_without: "acyclic_store s \<Longrightarrow> acyclic_store (without s X)"
  by (auto simp: acyclic_store_def dest: descendant_without_mono)

lemma closed_empty: "closed s {}"
  by (simp add: closed_def)

lemma closed_insert_descendants: "closed s (insert c (descendants s c))"
  by (auto simp: closed_def descendants_def intro: descendant_trans)

lemma closed_Un: "closed s X \<Longrightarrow> closed s Y \<Longrightarrow> closed s (X \<union> Y)"
  by (auto simp: closed_def)

lemma without_without: "without (without s X) Y = without s (X \<union> Y)"
  by (auto simp: without_def intro: filter_cong)

lemma child_card_less:
  assumes "acyclic_store s" and "b \<in> set s" and "parentId b = Some a"
  shows "card (descendants s (id' b)) < card (descendants s a)"
proof (rule psubset_card_mono [OF finite_descendants])
  have c: "descendant s a (id' b)"
    using assms(2,3) by (rule descendant.child)
  then have "descendants s (id' b) \<subseteq> descendants s a"
    by (auto simp: descendants_def intro: descendant_trans)
  moreover have "id' b \<in> descendants s a"
    using c by (simp add: descendants_def)
  moreover have "id' b \<notin> descendants s (id' b)"
    using assms(1) by (simp add: descendants_def acyclic_store_def)
  ultimately show "descendants s (id' b) \<subset> descendants s a" by blast
qed

lemma card_descendants_without:
  "closed s X \<Longrightarrow> card (descendants (without s X) a) \<le> card (descendants s a)"
  by (simp add: descendants_without card_mono finite_descendants)

lemma post_order_append:
  assumes "post_order s X xs" and "post_order s (X \<union> set xs) ys"
  shows "post_order s X (xs @ ys)"
  unfolding post_order_def
proof (intro allI impI)
  fix j assume j: "j < length (xs @ ys)"
  show "descendants s ((xs @ ys) ! j) \<subseteq> X \<union> set (take j (xs @ ys))"
  proof (cases "j < length xs")
    case True
    with assms(1) have "descendants s (xs ! j) \<subseteq> X \<union> set (take j xs)"
      by (simp add: post_order_def)
    with True show ?thesis by (simp add: nth_append)
  next
    case False
    with j have "j - length xs < length ys" by simp
    with assms(2) have "descendants s (ys ! (j - length xs))
        \<subseteq> (X \<union> set xs) \<union> set (take (j - length xs) ys)"
      by (simp add: post_order_def)
    with False show ?thesis by (simp add: nth_append Un_assoc)
  qed
qed

lemma post_order_without:
  assumes "closed s X" and "post_order (without s X) {} tr"
  shows "post_order s X tr"
  unfolding post_order_def
proof (intro allI impI)
  fix j assume "j < length tr"
  with assms(2) have "descendants (without s X) (tr ! j) \<subseteq> set (take j tr)"
    by (simp add: post_order_def)
  then show "descendants s (tr ! j) \<subseteq> X \<union> set (take j tr)"
    unfolding descendants_without [OF assms(1)] by auto
qed

lemma post_order_snoc:
  assumes "post_order s X tr" and "descendants s i \<subseteq> X \<union> set tr"
  shows "post_order s X (tr @ [i])"
proof (rule post_order_append [OF assms(1)])
  show "post_order s (X \<union> set tr) [i]"
    using assms(2) by (simp add: post_order_def)
qed

text \<open>
  The loop over the children, once the recursive call is known to do its work on every
  store (\<open>step\<close>): the running store is the first one without a set \<open>X\<close> that is closed under
  descendants.
\<close>

lemma for_each_delete:
  assumes step: "\<And>db c. acyclic_store (blocksStore db) \<Longrightarrow> card (descendants (blocksStore db) c) < n \<Longrightarrow>
      \<exists>tr. f db c = Some \<lparr>blocksStore = without (blocksStore db) (insert c (descendants (blocksStore db) c)),
               requests = requests db @ map Delete (tr @ [c])\<rparr>
            \<and> set tr = descendants (blocksStore db) c
            \<and> post_order (blocksStore db) {} (tr @ [c])"
    and acyc: "acyclic_store s"
  shows "closed s X \<Longrightarrow> blocksStore db = without s X \<Longrightarrow>
     \<forall>c\<in>set cs. card (descendants s c) < n \<Longrightarrow>
     \<exists>tr. for_each f cs db =
            Some \<lparr>blocksStore = without s (X \<union> (\<Union>c\<in>set cs. insert c (descendants s c))),
                  requests = requests db @ map Delete tr\<rparr>
          \<and> set tr \<subseteq> (\<Union>c\<in>set cs. insert c (descendants s c))
          \<and> (\<Union>c\<in>set cs. insert c (descendants s c)) \<subseteq> X \<union> set tr
          \<and> post_order s X tr"
proof (induction cs arbitrary: db X)
  case Nil
  then show ?case by (simp add: post_order_def)
next
  case (Cons c cs)
  let ?D = "descendants s c"
  have dw: "descendants (blocksStore db) c = ?D - X"
    using Cons.prems(1,2) by (simp add: descendants_without)
  have "acyclic_store (blocksStore db)"
    using acyc Cons.prems(2) by (simp add: acyclic_without)
  moreover have "card (descendants (blocksStore db) c) < n"
    using Cons.prems card_descendants_without [of s X c] by (simp add: le_less_trans)
  ultimately obtain tr where tr:
    "f db c = Some \<lparr>blocksStore = without (blocksStore db) (insert c (descendants (blocksStore db) c)),
               requests = requests db @ map Delete (tr @ [c])\<rparr>"
    "set tr = descendants (blocksStore db) c"
    "post_order (blocksStore db) {} (tr @ [c])"
    using step by blast
  let ?db' = "\<lparr>blocksStore = without (blocksStore db) (insert c (descendants (blocksStore db) c)),
               requests = requests db @ map Delete (tr @ [c])\<rparr>"
  let ?X' = "X \<union> insert c ?D"
  have cl: "closed s ?X'"
    using Cons.prems(1) by (intro closed_Un closed_insert_descendants)
  have X': "X \<union> insert c (?D - X) = ?X'" by auto
  then have st: "blocksStore ?db' = without s ?X'"
    using Cons.prems(2) by (simp add: descendants_without [OF Cons.prems(1)] without_without)
  have "\<forall>c\<in>set cs. card (descendants s c) < n"
    using Cons.prems(3) by simp
  from Cons.IH [OF cl st this] obtain tr' where tr':
    "for_each f cs ?db' =
            Some \<lparr>blocksStore = without s (?X' \<union> (\<Union>c\<in>set cs. insert c (descendants s c))),
                  requests = requests ?db' @ map Delete tr'\<rparr>"
    "set tr' \<subseteq> (\<Union>c\<in>set cs. insert c (descendants s c))"
    "(\<Union>c\<in>set cs. insert c (descendants s c)) \<subseteq> ?X' \<union> set tr'"
    "post_order s ?X' tr'"
    by blast
  have eq: "?X' \<union> (\<Union>c\<in>set cs. insert c (descendants s c))
      = X \<union> (\<Union>c\<in>set (c # cs). insert c (descendants s c))"
    by auto
  have "for_each f (c # cs) db = for_each f cs ?db'"
    using tr(1) by simp
  also have "\<dots> = Some \<lparr>blocksStore = without s (?X' \<union> (\<Union>c\<in>set cs. insert c (descendants s c))),
                  requests = requests ?db' @ map Delete tr'\<rparr>"
    by (rule tr'(1))
  also have "\<dots> = Some \<lparr>blocksStore = without s (X \<union> (\<Union>c\<in>set (c # cs). insert c (descendants s c))),
            requests = requests db @ map Delete ((tr @ [c]) @ tr')\<rparr>"
    by (simp only: eq) simp
  finally have "for_each f (c # cs) db =
      Some \<lparr>blocksStore = without s (X \<union> (\<Union>c\<in>set (c # cs). insert c (descendants s c))),
            requests = requests db @ map Delete ((tr @ [c]) @ tr')\<rparr>" .
  moreover have "set ((tr @ [c]) @ tr') \<subseteq> (\<Union>c\<in>set (c # cs). insert c (descendants s c))"
    using tr(2) tr'(2) dw by auto
  moreover have "(\<Union>c\<in>set (c # cs). insert c (descendants s c)) \<subseteq> X \<union> set ((tr @ [c]) @ tr')"
    using tr(2) tr'(3) dw by auto
  moreover have "post_order s X ((tr @ [c]) @ tr')"
  proof (rule post_order_append)
    have "post_order (without s X) {} (tr @ [c])"
      using tr(3) Cons.prems(2) by simp
    with Cons.prems(1) show "post_order s X (tr @ [c])"
      by (rule post_order_without)
    have "X \<union> set (tr @ [c]) = ?X'"
      using tr(2) dw X' by auto
    with tr'(4) show "post_order s (X \<union> set (tr @ [c])) tr'"
      by simp
  qed
  ultimately show ?case by blast
qed

lemma deleteBlock_removes_subtree:
  "acyclic_store (blocksStore db) \<Longrightarrow> card (descendants (blocksStore db) i) < n \<Longrightarrow>
     \<exists>tr. DataManager_deleteBlock n db i =
            Some \<lparr>blocksStore = without (blocksStore db) (insert i (descendants (blocksStore db) i)),
                  requests = requests db @ map Delete (tr @ [i])\<rparr>
          \<and> set tr = descendants (blocksStore db) i
          \<and> post_order (blocksStore db) {} (tr @ [i])"
proof (induction n arbitrary: db i)
  case 0
  then show ?case by simp
next
  case (Suc n)
  let ?s = "blocksStore db"
  let ?cs = "map id' (db_getByIndex_parentId db i)"
  have cs: "set ?cs = id' ` {b \<in> set ?s. parentId b = Some i}"
    by (auto simp: db_getByIndex_parentId_def)
  have un: "(\<Union>c\<in>set ?cs. insert c (descendants ?s c)) = descendants ?s i"
    unfolding cs by (rule descendants_unfold [symmetric])
  have small: "\<forall>c\<in>set ?cs. card (descendants ?s c) < n"
  proof
    fix c assume "c \<in> set ?cs"
    then obtain b where "b \<in> set ?s" "parentId b = Some i" "c = id' b"
      unfolding cs by auto
    with child_card_less [OF Suc.prems(1)] have "card (descendants ?s c) < card (descendants ?s i)"
      by simp
    with Suc.prems(2) show "card (descendants ?s c) < n" by simp
  qed
  have "blocksStore db = without ?s {}"
    by (simp add: without_def)
  from for_each_delete [of n "DataManager_deleteBlock n" ?s "{}" db ?cs,
      OF Suc.IH Suc.prems(1) closed_empty this small]
  obtain tr where tr0:
    "for_each (DataManager_deleteBlock n) ?cs db =
       Some \<lparr>blocksStore = without ?s ({} \<union> (\<Union>c\<in>set ?cs. insert c (descendants ?s c))),
             requests = requests db @ map Delete tr\<rparr>"
    "set tr \<subseteq> (\<Union>c\<in>set ?cs. insert c (descendants ?s c))"
    "(\<Union>c\<in>set ?cs. insert c (descendants ?s c)) \<subseteq> {} \<union> set tr"
    "post_order ?s {} tr"
    by blast
  have tr:
    "for_each (DataManager_deleteBlock n) ?cs db =
       Some \<lparr>blocksStore = without ?s (descendants ?s i), requests = requests db @ map Delete tr\<rparr>"
    "set tr = descendants ?s i"
    using tr0(1,2,3) unfolding un by auto
  have "without (without ?s (descendants ?s i)) {i} = without ?s (insert i (descendants ?s i))"
    by (simp add: without_without)
  moreover have "filter (\<lambda>b. id' b \<noteq> i) (without ?s (descendants ?s i))
       = without (without ?s (descendants ?s i)) {i}"
    by (simp add: without_def)
  ultimately have "DataManager_deleteBlock (Suc n) db i =
      Some \<lparr>blocksStore = without ?s (insert i (descendants ?s i)),
            requests = requests db @ map Delete (tr @ [i])\<rparr>"
    using tr(1) by (simp add: db_delete_def)
  moreover have "post_order ?s {} (tr @ [i])"
    using tr0(4) tr(2) by (intro post_order_snoc) simp_all
  ultimately show ?case using tr(2) by blast
qed

lemma length_without:
  assumes "distinct (map id' s)" and "Y \<subseteq> id' ` set s"
  shows "length s = length (without s Y) + card Y"
proof -
  let ?in = "filter (\<lambda>b. id' b \<in> Y) s"
  have "distinct (map id' ?in)"
    using assms(1) by (rule distinct_map_filter)
  then have "length (map id' ?in) = card (set (map id' ?in))"
    by (simp only: distinct_card)
  moreover have "set (map id' ?in) = Y"
    using assms(2) by auto
  ultimately have "length ?in = card Y" by simp
  moreover have "length ?in + length (filter (\<lambda>b. \<not> id' b \<in> Y) s) = length s"
    by (rule sum_length_filter_compl)
  ultimately show ?thesis by (simp add: without_def)
qed

lemma descendant_rank:
  assumes "\<forall>b\<in>set s. \<forall>p. parentId b = Some p \<longrightarrow> r p < (r (id' b) :: nat)"
  shows "descendant s a d \<Longrightarrow> r a < r d"
proof (induction rule: descendant.induct)
  case (child b)
  with assms show ?case by blast
next
  case (step p b)
  with assms have "r p < r (id' b)" by blast
  with step.IH show ?case by simp
qed

lemma acyclic_example_db: "acyclic_store (blocksStore example_db)"
proof -
  let ?r = "\<lambda>i. if i = ''a'' then 0 else if i = ''b'' then 1 else (2::nat)"
  have "\<forall>b\<in>set (blocksStore example_db). \<forall>p. parentId b = Some p \<longrightarrow> ?r p < ?r (id' b)"
    by (simp add: example_db_def example_block_def)
  from descendant_rank [of "blocksStore example_db" ?r, OF this]
  have "descendant (blocksStore example_db) x x \<Longrightarrow> ?r x < ?r x" for x .
  then show ?thesis by (auto simp: acyclic_store_def)
qed

lemma descendants_children:
  "descendants (blocksStore db) a =
     (\<Union>c\<in>set (map id' (db_getByIndex_parentId db a)). insert c (descendants (blocksStore db) c))"
  by (subst descendants_unfold) (simp add: db_getByIndex_parentId_def)

lemma example_children:
  "map id' (db_getByIndex_parentId example_db ''a'') = [''b'']"
  "map id' (db_getByIndex_parentId example_db ''b'') = [''c'']"
  "map id' (db_getByIndex_parentId example_db ''c'') = []"
  by (simp_all add: db_getByIndex_parentId_def example_db_def example_block_def)

lemma example_descendants: "descendants (blocksStore example_db) ''a'' = {''b'', ''c''}"
proof -
  have c: "descendants (blocksStore example_db) ''c'' = {}"
    by (subst descendants_children) (simp only: example_children, simp)
  have b: "descendants (blocksStore example_db) ''b'' = {''c''}"
    by (subst descendants_children) (simp only: example_children, simp add: c)
  show ?thesis
    by (subst descendants_children) (simp only: example_children, simp add: b)
qed

text \<open>
  On a block that is its own parent the recursion does not end: no bound is large enough.
\<close>

lemma deleteBlock_cycle_never_returns:
  "DataManager_deleteBlock n \<lparr>blocksStore = [example_block ''x'' (Some ''x'') 0], requests = []\<rparr> ''x''
     = None"
  by (induction n) (simp_all add: db_getByIndex_parentId_def example_block_def)

text \<open>
  Claim C2. In a store whose parent links have no cycle, \<open>deleteBlock\<close> on a stored block
  returns, and removes that block and its N transitive descendants and nothing else: N+1
  records. The delete requests for the descendants come first and the one for the block
  itself last, and each of them comes after the requests for its own descendants. Afterwards no parent chain leads to the deleted block, and no stored block
  names a deleted block as its parent.
\<close>

theorem deleteBlock_cascade:
  assumes "distinct (map id' (blocksStore db))"
    and "acyclic_store (blocksStore db)"
    and "i \<in> id' ` set (blocksStore db)"
    and "length (blocksStore db) < n"
  shows "\<exists>db' tr. DataManager_deleteBlock n db i = Some db'
     \<and> blocksStore db' =
         filter (\<lambda>b. id' b \<notin> insert i (descendants (blocksStore db) i)) (blocksStore db)
     \<and> length (blocksStore db) =
         length (blocksStore db') + (card (descendants (blocksStore db) i) + 1)
     \<and> requests db' = requests db @ map Delete (tr @ [i])
     \<and> set tr = descendants (blocksStore db) i
     \<and> (\<forall>j<length (tr @ [i]).
           descendants (blocksStore db) ((tr @ [i]) ! j) \<subseteq> set (take j (tr @ [i])))
     \<and> descendants (blocksStore db') i = {}
     \<and> (\<forall>b\<in>set (blocksStore db'). \<forall>p. parentId b = Some p \<longrightarrow>
           p \<notin> insert i (descendants (blocksStore db) i))"
proof -
  let ?s = "blocksStore db"
  let ?X = "insert i (descendants ?s i)"
  have "card (descendants ?s i) \<le> card (id' ` set ?s)"
    by (rule card_mono [OF _ descendants_subset_ids]) simp
  also have "\<dots> \<le> length ?s"
    using card_image_le [of "set ?s" id'] card_length [of ?s] by simp
  finally have "card (descendants ?s i) < n"
    using assms(4) by simp
  from deleteBlock_removes_subtree [OF assms(2) this] obtain tr where tr:
    "DataManager_deleteBlock n db i =
       Some \<lparr>blocksStore = without ?s ?X, requests = requests db @ map Delete (tr @ [i])\<rparr>"
    "set tr = descendants ?s i"
    "post_order ?s {} (tr @ [i])"
    by blast
  have po: "\<forall>j<length (tr @ [i]). descendants ?s ((tr @ [i]) ! j) \<subseteq> set (take j (tr @ [i]))"
    using tr(3) unfolding post_order_def by simp
  have cl: "closed ?s ?X"
    by (rule closed_insert_descendants)
  have notin: "i \<notin> descendants ?s i"
    using assms(2) by (simp add: acyclic_store_def descendants_def)
  have "?X \<subseteq> id' ` set ?s"
    using assms(3) descendants_subset_ids [of ?s i] by auto
  from length_without [OF assms(1) this]
  have len: "length ?s = length (without ?s ?X) + (card (descendants ?s i) + 1)"
    using notin by (simp add: finite_descendants)
  have empty: "descendants (without ?s ?X) i = {}"
    by (auto simp: descendants_without [OF cl])
  have orphans: "\<forall>b\<in>set (without ?s ?X). \<forall>p. parentId b = Some p \<longrightarrow> p \<notin> ?X"
  proof (intro ballI allI impI)
    fix b p
    assume b: "b \<in> set (without ?s ?X)" and p: "parentId b = Some p"
    show "p \<notin> ?X"
    proof
      assume "p \<in> ?X"
      with cl have "descendants ?s p \<subseteq> ?X" unfolding closed_def by blast
      moreover have "b \<in> set ?s" using b by (simp add: without_def)
      then have "id' b \<in> descendants ?s p"
        using p by (auto simp: descendants_def intro: descendant.child)
      ultimately show False using b by (auto simp: without_def)
    qed
  qed
  let ?db' = "\<lparr>blocksStore = without ?s ?X, requests = requests db @ map Delete (tr @ [i])\<rparr>"
  have wo: "blocksStore ?db' = filter (\<lambda>b. id' b \<notin> ?X) ?s"
    by (simp add: without_def)
  have "DataManager_deleteBlock n db i = Some ?db'
     \<and> blocksStore ?db' = filter (\<lambda>b. id' b \<notin> ?X) ?s
     \<and> length ?s = length (blocksStore ?db') + (card (descendants ?s i) + 1)
     \<and> requests ?db' = requests db @ map Delete (tr @ [i])
     \<and> set tr = descendants ?s i
     \<and> (\<forall>j<length (tr @ [i]). descendants ?s ((tr @ [i]) ! j) \<subseteq> set (take j (tr @ [i])))
     \<and> descendants (blocksStore ?db') i = {}
     \<and> (\<forall>b\<in>set (blocksStore ?db'). \<forall>p. parentId b = Some p \<longrightarrow> p \<notin> ?X)"
  proof (intro conjI)
    show "DataManager_deleteBlock n db i = Some ?db'" by (rule tr(1))
    show "blocksStore ?db' = filter (\<lambda>b. id' b \<notin> ?X) ?s" by (rule wo)
    show "length ?s = length (blocksStore ?db') + (card (descendants ?s i) + 1)"
      using len by simp
    show "requests ?db' = requests db @ map Delete (tr @ [i])" by simp
    show "set tr = descendants ?s i" by (rule tr(2))
    show "\<forall>j<length (tr @ [i]). descendants ?s ((tr @ [i]) ! j) \<subseteq> set (take j (tr @ [i]))"
      by (rule po)
    show "descendants (blocksStore ?db') i = {}" using empty by simp
    show "\<forall>b\<in>set (blocksStore ?db'). \<forall>p. parentId b = Some p \<longrightarrow> p \<notin> ?X"
      using orphans by simp
  qed
  then show ?thesis by blast
qed

theorem deleteBlock_cascade_witness:
  "distinct (map id' (blocksStore example_db))
   \<and> acyclic_store (blocksStore example_db)
   \<and> ''a'' \<in> id' ` set (blocksStore example_db)
   \<and> length (blocksStore example_db) < 5
   \<and> (\<exists>db' tr. DataManager_deleteBlock 5 example_db ''a'' = Some db'
        \<and> length (blocksStore example_db) =
            length (blocksStore db') + (card (descendants (blocksStore example_db) ''a'') + 1)
        \<and> requests db' = requests example_db @ map Delete (tr @ [''a''])
        \<and> set tr = descendants (blocksStore example_db) ''a'')
   \<and> DataManager_deleteBlock 5 example_db ''a'' =
       Some \<lparr>blocksStore = [example_block ''d'' None 3],
             requests = [Delete ''c'', Delete ''b'', Delete ''a'']\<rparr>
   \<and> descendants (blocksStore example_db) ''a'' = {''b'', ''c''}"
proof -
  have h1: "distinct (map id' (blocksStore example_db))"
    by (simp add: example_db_def example_block_def)
  have h3: "''a'' \<in> id' ` set (blocksStore example_db)"
    by (simp add: example_db_def example_block_def)
  have h4: "length (blocksStore example_db) < 5"
    by (simp add: example_db_def)
  have run: "DataManager_deleteBlock 5 example_db ''a'' =
       Some \<lparr>blocksStore = [example_block ''d'' None 3],
             requests = [Delete ''c'', Delete ''b'', Delete ''a'']\<rparr>"
    by (simp add: example_db_def example_block_def db_getByIndex_parentId_def db_delete_def
        eval_nat_numeral)
  from deleteBlock_cascade [OF h1 acyclic_example_db h3 h4]
  have "\<exists>db' tr. DataManager_deleteBlock 5 example_db ''a'' = Some db'
        \<and> length (blocksStore example_db) =
            length (blocksStore db') + (card (descendants (blocksStore example_db) ''a'') + 1)
        \<and> requests db' = requests example_db @ map Delete (tr @ [''a''])
        \<and> set tr = descendants (blocksStore example_db) ''a''"
    by (elim exE conjE) (intro exI conjI)
  with h1 acyclic_example_db h3 h4 run example_descendants show ?thesis by (intro conjI)
qed

section \<open>Reordering\<close>

lemma apply_order_frame:
  "id' (apply_order clock P xs i b) = id' b
   \<and> pageId (apply_order clock P xs i b) = pageId b
   \<and> parentId (apply_order clock P xs i b) = parentId b
   \<and> type' (apply_order clock P xs i b) = type' b
   \<and> content (apply_order clock P xs i b) = content b
   \<and> properties (apply_order clock P xs i b) = properties b
   \<and> createdAt (apply_order clock P xs i b) = createdAt b"
  by (induction xs arbitrary: i b) simp_all

lemma apply_order_id [simp]: "id' (apply_order clock P xs i b) = id' b"
  by (simp add: apply_order_frame)

lemma apply_order_pageId [simp]: "pageId (apply_order clock P xs i b) = pageId b"
  by (simp add: apply_order_frame)

lemma apply_order_skip:
  "id' b \<notin> set xs \<or> id' b \<notin> P \<Longrightarrow> apply_order clock P xs i b = b"
  by (induction xs arbitrary: i) auto

lemma apply_order_last:
  "id' b \<in> P \<Longrightarrow> k < length xs \<Longrightarrow> xs ! k = id' b \<Longrightarrow>
   \<forall>j. k < j \<and> j < length xs \<longrightarrow> xs ! j \<noteq> id' b \<Longrightarrow>
   order (apply_order clock P xs i b) = int (i + k)
   \<and> updatedAt (apply_order clock P xs i b) = clock (i + k)"
proof (induction xs arbitrary: i b k)
  case Nil
  then show ?case by simp
next
  case (Cons x xs)
  show ?case
  proof (cases k)
    case 0
    with Cons.prems have x: "x = id' b" by simp
    have "id' b \<notin> set xs"
    proof
      assume "id' b \<in> set xs"
      then obtain j where "j < length xs" "xs ! j = id' b"
        by (auto simp: in_set_conv_nth)
      with Cons.prems(4) 0 show False by (auto dest: spec [of _ "Suc j"])
    qed
    then have "apply_order clock P xs (Suc i) (b\<lparr>order := int i, updatedAt := clock i\<rparr>)
        = b\<lparr>order := int i, updatedAt := clock i\<rparr>"
      by (intro apply_order_skip) simp
    with x Cons.prems(1) 0 show ?thesis by simp
  next
    case (Suc k')
    let ?b = "if x \<in> P \<and> id' b = x then b\<lparr>order := int i, updatedAt := clock i\<rparr> else b"
    have idb: "id' ?b = id' b" by simp
    have "order (apply_order clock P xs (Suc i) ?b) = int (Suc i + k')
        \<and> updatedAt (apply_order clock P xs (Suc i) ?b) = clock (Suc i + k')"
    proof (rule Cons.IH)
      show "id' ?b \<in> P" using Cons.prems(1) by (simp only: idb)
      show "k' < length xs" using Cons.prems(2) Suc by simp
      show "xs ! k' = id' ?b" using Cons.prems(3) Suc by (simp only: idb) simp
      show "\<forall>j. k' < j \<and> j < length xs \<longrightarrow> xs ! j \<noteq> id' ?b"
      proof (intro allI impI)
        fix j assume "k' < j \<and> j < length xs"
        with Cons.prems(4) Suc have "(x # xs) ! Suc j \<noteq> id' b" by auto
        then show "xs ! j \<noteq> id' ?b" by (simp only: idb) simp
      qed
    qed
    with Suc show ?thesis by simp
  qed
qed

lemma db_get_Some_iff:
  assumes "distinct (map id' (blocksStore db))"
  shows "db_get db i = Some b \<longleftrightarrow> b \<in> set (blocksStore db) \<and> id' b = i"
proof
  assume "db_get db i = Some b"
  then show "b \<in> set (blocksStore db) \<and> id' b = i"
    by (auto simp: db_get_def find_Some_iff)
next
  assume b: "b \<in> set (blocksStore db) \<and> id' b = i"
  then have "db_get db i \<noteq> None"
    by (auto simp: db_get_def find_None_iff)
  then obtain c where c: "db_get db i = Some c" by auto
  then have "c \<in> set (blocksStore db) \<and> id' c = i"
    by (auto simp: db_get_def find_Some_iff)
  with b assms have "c = b"
    by (auto simp: distinct_map dest: inj_onD)
  with c show "db_get db i = Some b" by simp
qed

lemma map_replace_distinct:
  assumes "distinct (map id' s)" and "c \<in> set s"
  shows "map (\<lambda>x. if id' x = id' c then f c else x) s = map (\<lambda>x. if id' x = id' c then f x else x) s"
proof (rule map_cong [OF refl])
  fix x assume "x \<in> set s"
  with assms have "id' x = id' c \<Longrightarrow> x = c"
    by (auto simp: distinct_map dest: inj_onD)
  then show "(if id' x = id' c then f c else x) = (if id' x = id' c then f x else x)"
    by auto
qed

text \<open>\<open>updateBlock\<close> with \<open>{ order: k }\<close> on a stored id.\<close>

lemma updateBlock_order:
  assumes "distinct (map id' (blocksStore db))" and "x \<in> id' ` set (blocksStore db)"
  shows "\<exists>c. db_get db x = Some c
     \<and> DataManager_updateBlock t db x (order_patch k) =
       Inr \<lparr>blocksStore = map (\<lambda>b. if id' b = x then b\<lparr>order := k, updatedAt := t\<rparr> else b)
                            (blocksStore db),
            requests = requests db @ [Put (c\<lparr>order := k, updatedAt := t\<rparr>)]\<rparr>"
proof -
  from assms(2) obtain c where c: "c \<in> set (blocksStore db)" "id' c = x" by auto
  with assms(1) have get: "db_get db x = Some c"
    by (simp add: db_get_Some_iff)
  have sp: "(spread c (order_patch k))\<lparr>updatedAt := t\<rparr> = c\<lparr>order := k, updatedAt := t\<rparr>"
    by (simp add: spread_def order_patch_def no_patch_def)
  have "map (\<lambda>y. if id' y = id' c then (\<lambda>b. b\<lparr>order := k, updatedAt := t\<rparr>) c else y) (blocksStore db)
      = map (\<lambda>y. if id' y = id' c then (\<lambda>b. b\<lparr>order := k, updatedAt := t\<rparr>) y else y) (blocksStore db)"
    using assms(1) c(1) by (rule map_replace_distinct)
  then have "DataManager_updateBlock t db x (order_patch k) =
       Inr \<lparr>blocksStore = map (\<lambda>b. if id' b = x then b\<lparr>order := k, updatedAt := t\<rparr> else b)
                            (blocksStore db),
            requests = requests db @ [Put (c\<lparr>order := k, updatedAt := t\<rparr>)]\<rparr>"
    using c assms(2) by (simp add: DataManager_updateBlock_def get sp db_update_def)
  with get show ?thesis by blast
qed

lemma reorder_loop_result:
  assumes "P = id' ` set bs"
  shows "distinct (map id' (blocksStore db)) \<Longrightarrow> P \<subseteq> id' ` set (blocksStore db) \<Longrightarrow>
    \<exists>puts. reorder_loop clock bs xs i db =
        Inr \<lparr>blocksStore = map (apply_order clock P xs i) (blocksStore db),
             requests = requests db @ map Put puts\<rparr>
      \<and> map (\<lambda>b. (id' b, order b)) puts = listed P xs i
      \<and> (\<forall>b\<in>set puts. pageId b \<in> pageId ` set (blocksStore db))"
proof (induction xs arbitrary: i db)
  case Nil
  have "reorder_loop clock bs [] i db =
      Inr \<lparr>blocksStore = map (apply_order clock P [] i) (blocksStore db),
           requests = requests db @ map Put []\<rparr>"
    by (simp add: map_idI)
  then show ?case by (intro exI [of _ "[]"]) simp
next
  case (Cons x xs)
  show ?case
  proof (cases "x \<in> P")
    case False
    then have nf: "find (\<lambda>b. id' b = x) bs = None"
      using assms by (auto simp: find_None_iff)
    from Cons.IH [OF Cons.prems, of "Suc i"] obtain puts where puts:
      "reorder_loop clock bs xs (Suc i) db =
        Inr \<lparr>blocksStore = map (apply_order clock P xs (Suc i)) (blocksStore db),
             requests = requests db @ map Put puts\<rparr>"
      "map (\<lambda>b. (id' b, order b)) puts = listed P xs (Suc i)"
      "\<forall>b\<in>set puts. pageId b \<in> pageId ` set (blocksStore db)"
      by blast
    have "map (apply_order clock P (x # xs) i) (blocksStore db)
        = map (apply_order clock P xs (Suc i)) (blocksStore db)"
      using False by simp
    with puts nf False show ?thesis by (intro exI [of _ puts]) simp
  next
    case True
    then have "find (\<lambda>b. id' b = x) bs \<noteq> None"
      using assms by (auto simp: find_None_iff)
    then obtain blk where blk: "find (\<lambda>b. id' b = x) bs = Some blk" by auto
    then have idblk: "id' blk = x"
      by (auto simp: find_Some_iff)
    have xin: "x \<in> id' ` set (blocksStore db)"
      using True Cons.prems(2) by auto
    let ?g = "\<lambda>b. if id' b = x then b\<lparr>order := int i, updatedAt := clock i\<rparr> else b"
    from updateBlock_order [OF Cons.prems(1) xin, of "clock i" "int i"] obtain c where c:
      "db_get db x = Some c"
      "DataManager_updateBlock (clock i) db x (order_patch (int i)) =
         Inr \<lparr>blocksStore = map ?g (blocksStore db),
              requests = requests db @ [Put (c\<lparr>order := int i, updatedAt := clock i\<rparr>)]\<rparr>"
      by blast
    let ?db' = "\<lparr>blocksStore = map ?g (blocksStore db),
              requests = requests db @ [Put (c\<lparr>order := int i, updatedAt := clock i\<rparr>)]\<rparr>"
    have cin: "c \<in> set (blocksStore db)" "id' c = x"
      using c(1) Cons.prems(1) by (simp_all add: db_get_Some_iff)
    have ids: "map id' (blocksStore ?db') = map id' (blocksStore db)"
      by (simp add: comp_def cong: map_cong)
    have d': "distinct (map id' (blocksStore ?db'))"
      using Cons.prems(1) by (simp only: ids)
    have "id' ` set (blocksStore ?db') = set (map id' (blocksStore ?db'))"
      by (simp only: set_map)
    also have "\<dots> = id' ` set (blocksStore db)"
      by (simp only: ids set_map)
    finally have "id' ` set (blocksStore ?db') = id' ` set (blocksStore db)" .
    then have P': "P \<subseteq> id' ` set (blocksStore ?db')"
      using Cons.prems(2) by (simp only:)
    have pg: "pageId ` set (blocksStore ?db') \<subseteq> pageId ` set (blocksStore db)"
      by auto
    from Cons.IH [OF d' P', of "Suc i"] obtain puts where puts:
      "reorder_loop clock bs xs (Suc i) ?db' =
        Inr \<lparr>blocksStore = map (apply_order clock P xs (Suc i)) (blocksStore ?db'),
             requests = requests ?db' @ map Put puts\<rparr>"
      "map (\<lambda>b. (id' b, order b)) puts = listed P xs (Suc i)"
      "\<forall>b\<in>set puts. pageId b \<in> pageId ` set (blocksStore ?db')"
      by blast
    let ?puts = "c\<lparr>order := int i, updatedAt := clock i\<rparr> # puts"
    have st: "map (apply_order clock P xs (Suc i)) (blocksStore ?db')
        = map (apply_order clock P (x # xs) i) (blocksStore db)"
      using True by (simp add: comp_def if_distrib cong: if_cong)
    have "reorder_loop clock bs (x # xs) i db = reorder_loop clock bs xs (Suc i) ?db'"
      using blk idblk c(2) by simp
    also have "\<dots> = Inr \<lparr>blocksStore = map (apply_order clock P (x # xs) i) (blocksStore db),
             requests = requests db @ map Put ?puts\<rparr>"
      by (simp only: puts(1) st) simp
    finally have run: "reorder_loop clock bs (x # xs) i db =
        Inr \<lparr>blocksStore = map (apply_order clock P (x # xs) i) (blocksStore db),
             requests = requests db @ map Put ?puts\<rparr>" .
    have l: "map (\<lambda>b. (id' b, order b)) ?puts = listed P (x # xs) i"
      using puts(2) True cin(2) by simp
    have pgs: "\<forall>b\<in>set ?puts. pageId b \<in> pageId ` set (blocksStore db)"
      using puts(3) pg cin(1) by auto
    from run l pgs show ?thesis by blast
  qed
qed

lemma listed_sound:
  "(x, k) \<in> set (listed P xs i) \<Longrightarrow> x \<in> P \<and> (\<exists>j<length xs. xs ! j = x \<and> k = int (i + j))"
proof (induction xs arbitrary: i)
  case Nil
  then show ?case by simp
next
  case (Cons y ys)
  from Cons.prems have "(x = y \<and> k = int i \<and> y \<in> P) \<or> (x, k) \<in> set (listed P ys (Suc i))"
    by (auto split: if_splits)
  then show ?case
  proof
    assume "x = y \<and> k = int i \<and> y \<in> P"
    then show ?thesis by (auto intro: exI [of _ 0])
  next
    assume "(x, k) \<in> set (listed P ys (Suc i))"
    from Cons.IH [OF this] obtain j where "x \<in> P" "j < length ys" "ys ! j = x" "k = int (Suc i + j)"
      by blast
    then show ?thesis by (auto intro: exI [of _ "Suc j"])
  qed
qed

lemma listed_complete:
  "j < length xs \<Longrightarrow> xs ! j \<in> P \<Longrightarrow> (xs ! j, int (i + j)) \<in> set (listed P xs i)"
proof (induction xs arbitrary: i j)
  case Nil
  then show ?case by simp
next
  case (Cons y ys)
  show ?case
  proof (cases j)
    case 0
    with Cons.prems show ?thesis by simp
  next
    case (Suc j')
    with Cons.prems have "(ys ! j', int (Suc i + j')) \<in> set (listed P ys (Suc i))"
      by (intro Cons.IH) simp_all
    with Suc show ?thesis by simp
  qed
qed

lemma set_getBlocks: "set (getBlocks db p) = {b \<in> set (blocksStore db). pageId b = p}"
  by (auto simp: getBlocks_def db_getByIndex_pageId_def)

lemma page_ids_in_store: "id' ` set (getBlocks db p) \<subseteq> id' ` set (blocksStore db)"
  by (auto simp: set_getBlocks)

text \<open>The whole call, on a store whose keys are unique.\<close>

lemma reorderBlocks_result:
  assumes "distinct (map id' (blocksStore db))"
  shows "\<exists>puts. DataManager_reorderBlocks clock db p xs =
        Inr \<lparr>blocksStore = map (apply_order clock (id' ` set (getBlocks db p)) xs 0) (blocksStore db),
             requests = requests db @ map Put puts\<rparr>
      \<and> map (\<lambda>b. (id' b, order b)) puts = listed (id' ` set (getBlocks db p)) xs 0"
  using reorder_loop_result [OF refl assms page_ids_in_store]
  unfolding DataManager_reorderBlocks_def by blast

lemma db_get_map:
  assumes "distinct (map id' s)" and "b \<in> set s" and "\<And>x. id' (f x) = id' x"
  shows "db_get \<lparr>blocksStore = map f s, requests = r\<rparr> (id' b) = Some (f b)"
proof -
  have e: "map id' (map f s) = map id' s"
    using assms(3) by (simp add: comp_def)
  have "distinct (map id' (map f s))"
    using assms(1) unfolding e .
  then have "distinct (map id' (blocksStore \<lparr>blocksStore = map f s, requests = r\<rparr>))"
    by simp
  from db_get_Some_iff [OF this] show ?thesis
    using assms(2,3) by simp
qed

text \<open>
  Claim C10. On a store with unique keys \<open>reorderBlocks\<close> returns normally for every list of
  ids. It keeps the set of stored records' ids; it writes only records of blocks of the
  page whose id is listed, each with the index of a position where that id stands, so an id
  that is not one of the page's blocks causes no write and its index is given to no block;
  a stored block whose id is not listed, and a block of another page, keeps its record and
  so its order.
\<close>

theorem reorderBlocks_mismatch:
  assumes "distinct (map id' (blocksStore db))"
  shows "\<exists>db' puts. DataManager_reorderBlocks clock db p orderedIds = Inr db'
    \<and> map id' (blocksStore db') = map id' (blocksStore db)
    \<and> requests db' = requests db @ map Put puts
    \<and> (\<forall>b\<in>set puts. id' b \<in> id' ` set (getBlocks db p)
          \<and> (\<exists>k<length orderedIds. orderedIds ! k = id' b \<and> order b = int k))
    \<and> (\<forall>b\<in>set (blocksStore db). id' b \<notin> set orderedIds \<longrightarrow> db_get db' (id' b) = Some b)
    \<and> (\<forall>b\<in>set (blocksStore db). pageId b \<noteq> p \<longrightarrow> db_get db' (id' b) = Some b)"
proof -
  let ?P = "id' ` set (getBlocks db p)"
  let ?A = "apply_order clock ?P orderedIds 0"
  from reorderBlocks_result [OF assms, of clock p orderedIds] obtain puts where puts:
    "DataManager_reorderBlocks clock db p orderedIds =
        Inr \<lparr>blocksStore = map ?A (blocksStore db), requests = requests db @ map Put puts\<rparr>"
    "map (\<lambda>b. (id' b, order b)) puts = listed ?P orderedIds 0"
    by blast
  let ?db' = "\<lparr>blocksStore = map ?A (blocksStore db), requests = requests db @ map Put puts\<rparr>"
  have ids: "map id' (blocksStore ?db') = map id' (blocksStore db)"
    by simp
  have wr: "\<forall>b\<in>set puts. id' b \<in> ?P
          \<and> (\<exists>k<length orderedIds. orderedIds ! k = id' b \<and> order b = int k)"
  proof
    fix b assume "b \<in> set puts"
    then have "(id' b, order b) \<in> set (map (\<lambda>b. (id' b, order b)) puts)"
      by force
    then have "(id' b, order b) \<in> set (listed ?P orderedIds 0)"
      by (simp only: puts(2))
    from listed_sound [OF this]
    show "id' b \<in> ?P \<and> (\<exists>k<length orderedIds. orderedIds ! k = id' b \<and> order b = int k)"
      by simp
  qed
  have get: "db_get ?db' (id' b) = Some (?A b)" if "b \<in> set (blocksStore db)" for b
    using assms that by (rule db_get_map) simp
  have unl: "\<forall>b\<in>set (blocksStore db). id' b \<notin> set orderedIds \<longrightarrow> db_get ?db' (id' b) = Some b"
    using get by (simp add: apply_order_skip)
  have oth: "\<forall>b\<in>set (blocksStore db). pageId b \<noteq> p \<longrightarrow> db_get ?db' (id' b) = Some b"
  proof (intro ballI impI)
    fix b assume b: "b \<in> set (blocksStore db)" "pageId b \<noteq> p"
    have "id' b \<notin> ?P"
    proof
      assume "id' b \<in> ?P"
      then obtain c where "c \<in> set (blocksStore db)" "pageId c = p" "id' c = id' b"
        by (auto simp: set_getBlocks)
      with assms b(1) have "c = b"
        by (auto simp: distinct_map dest: inj_onD)
      with \<open>pageId c = p\<close> b(2) show False by simp
    qed
    then have "?A b = b" by (simp add: apply_order_skip)
    with get [OF b(1)] show "db_get ?db' (id' b) = Some b" by simp
  qed
  have "DataManager_reorderBlocks clock db p orderedIds = Inr ?db'
    \<and> map id' (blocksStore ?db') = map id' (blocksStore db)
    \<and> requests ?db' = requests db @ map Put puts
    \<and> (\<forall>b\<in>set puts. id' b \<in> ?P
          \<and> (\<exists>k<length orderedIds. orderedIds ! k = id' b \<and> order b = int k))
    \<and> (\<forall>b\<in>set (blocksStore db). id' b \<notin> set orderedIds \<longrightarrow> db_get ?db' (id' b) = Some b)
    \<and> (\<forall>b\<in>set (blocksStore db). pageId b \<noteq> p \<longrightarrow> db_get ?db' (id' b) = Some b)"
  proof (intro conjI)
    show "DataManager_reorderBlocks clock db p orderedIds = Inr ?db'" by (rule puts(1))
    show "map id' (blocksStore ?db') = map id' (blocksStore db)" by (rule ids)
    show "requests ?db' = requests db @ map Put puts" by simp
    show "\<forall>b\<in>set puts. id' b \<in> ?P
          \<and> (\<exists>k<length orderedIds. orderedIds ! k = id' b \<and> order b = int k)" by (rule wr)
    show "\<forall>b\<in>set (blocksStore db). id' b \<notin> set orderedIds \<longrightarrow> db_get ?db' (id' b) = Some b"
      by (rule unl)
    show "\<forall>b\<in>set (blocksStore db). pageId b \<noteq> p \<longrightarrow> db_get ?db' (id' b) = Some b"
      by (rule oth)
  qed
  then show ?thesis by blast
qed

lemma distinct_map_eqD:
  "distinct (map f xs) \<Longrightarrow> x \<in> set xs \<Longrightarrow> y \<in> set xs \<Longrightarrow> f x = f y \<Longrightarrow> x = y"
  by (auto simp: distinct_map dest: inj_onD)

lemma db_get_in_store: "db_get db i = Some b \<Longrightarrow> b \<in> set (blocksStore db)"
proof -
  have "find P xs = Some x \<Longrightarrow> x \<in> set xs" for P and xs :: "block list" and x
    by (induction xs) (auto split: if_splits)
  then show "db_get db i = Some b \<Longrightarrow> b \<in> set (blocksStore db)"
    unfolding db_get_def .
qed

lemma sorted_distinct_upto:
  assumes "sorted xs" and "distinct xs" and "set xs = int ` {0..<n}"
  shows "xs = map int [0..<n]"
proof (rule sorted_distinct_set_unique [OF assms(1,2)])
  show "sorted (map int [0..<n])"
    by (simp add: sorted_map sorted_wrt_mono_rel [of _ "(\<le>)"])
  show "distinct (map int [0..<n])"
    by (simp add: distinct_map inj_on_def)
  show "set xs = set (map int [0..<n])"
    using assms(3) by simp
qed

text \<open>
  Claim C4. When the ids listed are a permutation of the ids of the page's stored blocks,
  \<open>reorderBlocks\<close> returns normally and every listed block is stored with its index as
  order, by a write request of its own. Read back in ascending order the page's blocks are
  the listed ids in sequence and their orders are \<open>0, ..., n-1\<close>, hence unique within the page.
\<close>

theorem reorderBlocks_permutation:
  assumes "distinct (map id' (blocksStore db))"
    and "distinct orderedIds"
    and "set orderedIds = id' ` set (getBlocks db p)"
  shows "\<exists>db'. DataManager_reorderBlocks clock db p orderedIds = Inr db'
    \<and> (\<forall>k<length orderedIds. \<exists>b. db_get db' (orderedIds ! k) = Some b
           \<and> order b = int k \<and> pageId b = p
           \<and> (\<exists>w. Put w \<in> set (requests db') \<and> id' w = orderedIds ! k \<and> order w = int k))
    \<and> map id' (getBlocks db' p) = orderedIds
    \<and> map order (getBlocks db' p) = map int [0..<length orderedIds]
    \<and> distinct (map order (getBlocks db' p))"
proof -
  let ?s = "blocksStore db"
  let ?n = "length orderedIds"
  let ?P = "id' ` set (getBlocks db p)"
  let ?A = "apply_order clock ?P orderedIds 0"
  from reorderBlocks_result [OF assms(1), of clock p orderedIds] obtain puts where puts:
    "DataManager_reorderBlocks clock db p orderedIds =
        Inr \<lparr>blocksStore = map ?A ?s, requests = requests db @ map Put puts\<rparr>"
    "map (\<lambda>b. (id' b, order b)) puts = listed ?P orderedIds 0"
    by blast
  let ?db' = "\<lparr>blocksStore = map ?A ?s, requests = requests db @ map Put puts\<rparr>"
  have get: "db_get ?db' (id' b) = Some (?A b)" if "b \<in> set ?s" for b
    using assms(1) that by (rule db_get_map) simp
  have uniq: "j = k" if "j < ?n" "k < ?n" "orderedIds ! j = orderedIds ! k" for j k
    using that assms(2) by (simp add: nth_eq_iff_index_eq)
  have ord: "order (?A b) = int k" if "b \<in> set ?s" "pageId b = p" "k < ?n" "orderedIds ! k = id' b" for b k
  proof -
    have "id' b \<in> ?P"
      using that(1,2) by (auto simp: set_getBlocks)
    moreover have "\<forall>j. k < j \<and> j < ?n \<longrightarrow> orderedIds ! j \<noteq> id' b"
    proof (intro allI impI notI)
      fix j assume "k < j \<and> j < ?n" and "orderedIds ! j = id' b"
      with that(3,4) uniq [of j k] show False by simp
    qed
    ultimately show ?thesis
      using apply_order_last [of b ?P k orderedIds clock 0] that(3,4) by simp
  qed
  have first: "\<forall>k<?n. \<exists>b. db_get ?db' (orderedIds ! k) = Some b
           \<and> order b = int k \<and> pageId b = p
           \<and> (\<exists>w. Put w \<in> set (requests ?db') \<and> id' w = orderedIds ! k \<and> order w = int k)"
  proof (intro allI impI)
    fix k assume k: "k < ?n"
    then have "orderedIds ! k \<in> ?P"
      using assms(3) nth_mem [of k orderedIds] by simp
    then obtain b where b: "b \<in> set ?s" "pageId b = p" "id' b = orderedIds ! k"
      by (auto simp: set_getBlocks)
    have "(orderedIds ! k, int (0 + k)) \<in> set (listed ?P orderedIds 0)"
      using k \<open>orderedIds ! k \<in> ?P\<close> by (rule listed_complete)
    then have "(orderedIds ! k, int k) \<in> set (map (\<lambda>b. (id' b, order b)) puts)"
      by (simp only: puts(2)) simp
    then obtain w where "w \<in> set puts" "id' w = orderedIds ! k" "order w = int k"
      by auto
    then have "\<exists>w. Put w \<in> set (requests ?db') \<and> id' w = orderedIds ! k \<and> order w = int k"
      by auto
    moreover have "db_get ?db' (orderedIds ! k) = Some (?A b)"
      using get [OF b(1)] b(3) by simp
    moreover have "order (?A b) = int k"
      using b k by (intro ord) simp_all
    moreover have "pageId (?A b) = p"
      using b(2) by simp
    ultimately show "\<exists>b. db_get ?db' (orderedIds ! k) = Some b
           \<and> order b = int k \<and> pageId b = p
           \<and> (\<exists>w. Put w \<in> set (requests ?db') \<and> id' w = orderedIds ! k \<and> order w = int k)"
      by blast
  qed
  let ?F = "map ?A (filter (\<lambda>b. pageId b = p) ?s)"
  let ?L = "getBlocks ?db' p"
  have L: "?L = sort_key order ?F"
    by (simp add: getBlocks_def db_getByIndex_pageId_def filter_map comp_def)
  have setL: "set ?L = set ?F"
    by (simp only: L set_sort)
  have inF: "\<exists>k<?n. orderedIds ! k = id' c \<and> order c = int k" if "c \<in> set ?F" for c
  proof -
    from that obtain b where b: "b \<in> set ?s" "pageId b = p" "c = ?A b" by auto
    then have "id' b \<in> set orderedIds"
      using assms(3) by (auto simp: set_getBlocks)
    then obtain k where k: "k < ?n" "orderedIds ! k = id' b"
      by (auto simp: in_set_conv_nth)
    with b ord [OF b(1,2) k] show ?thesis by auto
  qed
  have idsF: "map id' ?F = map id' (filter (\<lambda>b. pageId b = p) ?s)"
    by (simp add: comp_def)
  have dF: "distinct (map id' ?F)"
    unfolding idsF using assms(1) by (rule distinct_map_filter)
  have injF: "inj_on order (set ?F)"
  proof (rule inj_onI)
    fix c d assume c: "c \<in> set ?F" and d: "d \<in> set ?F" and e: "order c = order d"
    from inF [OF c] obtain j where j: "j < ?n" "orderedIds ! j = id' c" "order c = int j" by blast
    from inF [OF d] obtain k where k: "k < ?n" "orderedIds ! k = id' d" "order d = int k" by blast
    from j k e have "id' c = id' d" by simp
    with dF c d show "c = d"
      by (rule distinct_map_eqD)
  qed
  have "distinct ?F"
    using dF by (simp only: distinct_map)
  then have dL: "distinct (map order ?L)"
    using injF by (simp only: L distinct_map distinct_sort set_sort)
  have "set (map order ?L) = int ` {0..<?n}"
  proof (rule set_eqI, rule iffI)
    fix v assume "v \<in> set (map order ?L)"
    then have "v \<in> order ` set ?F"
      by (simp only: set_map setL)
    then obtain c where c: "c \<in> set ?F" "v = order c" ..
    from inF [OF c(1)] obtain k where "k < ?n" "order c = int k" by blast
    with c(2) show "v \<in> int ` {0..<?n}" by simp
  next
    fix v assume "v \<in> int ` {0..<?n}"
    then obtain k where k: "k < ?n" "v = int k" by auto
    with first obtain b where b: "db_get ?db' (orderedIds ! k) = Some b" "order b = int k" "pageId b = p"
      by blast
    then have "b \<in> set (blocksStore ?db')"
      by (intro db_get_in_store)
    with b(3) have "b \<in> set ?L"
      by (simp only: set_getBlocks) simp
    with b(2) k(2) show "v \<in> set (map order ?L)" by force
  qed
  moreover have "sorted (map order ?L)"
    by (simp only: L sorted_sort_key)
  ultimately have orders: "map order ?L = map int [0..<?n]"
    using dL by (intro sorted_distinct_upto)
  then have len: "length ?L = ?n"
    using length_map [of order ?L] by simp
  have ids: "map id' ?L = orderedIds"
  proof (rule nth_equalityI)
    show "length (map id' ?L) = ?n" using len by simp
  next
    fix k assume "k < length (map id' ?L)"
    then have k: "k < ?n" using len by simp
    then have "?L ! k \<in> set ?F"
      using setL len nth_mem [of k ?L] by simp
    from inF [OF this] obtain j where j: "j < ?n" "orderedIds ! j = id' (?L ! k)" "order (?L ! k) = int j"
      by blast
    have "order (?L ! k) = map order ?L ! k"
      using k len by simp
    also have "\<dots> = int k"
      using k by (simp only: orders) simp
    finally have "j = k" using j(3) by simp
    with j(2) show "map id' ?L ! k = orderedIds ! k"
      using k len by simp
  qed
  have "DataManager_reorderBlocks clock db p orderedIds = Inr ?db'
    \<and> (\<forall>k<?n. \<exists>b. db_get ?db' (orderedIds ! k) = Some b
           \<and> order b = int k \<and> pageId b = p
           \<and> (\<exists>w. Put w \<in> set (requests ?db') \<and> id' w = orderedIds ! k \<and> order w = int k))
    \<and> map id' ?L = orderedIds
    \<and> map order ?L = map int [0..<?n]
    \<and> distinct (map order ?L)"
    using puts(1) first ids orders dL by (intro conjI)
  then show ?thesis by blast
qed

lemma distinct_example_db: "distinct (map id' (blocksStore example_db))"
  by (simp add: example_db_def example_block_def)

lemma page_ids_example_db: "id' ` set (getBlocks example_db ''p1'') = {''a'', ''b'', ''c'', ''d''}"
proof -
  have "map id' (getBlocks example_db ''p1'') = [''a'', ''b'', ''c'', ''d'']"
    by (simp add: getBlocks_def db_getByIndex_pageId_def example_db_def example_block_def)
  then have "set (map id' (getBlocks example_db ''p1'')) = set [''a'', ''b'', ''c'', ''d'']"
    by (rule arg_cong)
  then show ?thesis by (simp only: set_map) simp
qed

theorem reorderBlocks_permutation_witness:
  "distinct (map id' (blocksStore example_db))
   \<and> distinct [''d'', ''c'', ''a'', ''b'']
   \<and> set [''d'', ''c'', ''a'', ''b''] = id' ` set (getBlocks example_db ''p1'')
   \<and> (\<exists>db'. DataManager_reorderBlocks (\<lambda>i. 7) example_db ''p1'' [''d'', ''c'', ''a'', ''b''] = Inr db'
        \<and> map id' (getBlocks db' ''p1'') = [''d'', ''c'', ''a'', ''b'']
        \<and> map order (getBlocks db' ''p1'') = map int [0..<length [''d'', ''c'', ''a'', ''b'']])"
proof -
  have h2: "distinct [''d'', ''c'', ''a'', ''b'']" by simp
  have h3: "set [''d'', ''c'', ''a'', ''b''] = id' ` set (getBlocks example_db ''p1'')"
    unfolding page_ids_example_db by auto
  from reorderBlocks_permutation [OF distinct_example_db h2 h3, of "\<lambda>i. 7"]
  have "\<exists>db'. DataManager_reorderBlocks (\<lambda>i. 7) example_db ''p1'' [''d'', ''c'', ''a'', ''b''] = Inr db'
        \<and> map id' (getBlocks db' ''p1'') = [''d'', ''c'', ''a'', ''b'']
        \<and> map order (getBlocks db' ''p1'') = map int [0..<length [''d'', ''c'', ''a'', ''b'']]"
    by (elim exE conjE) (intro exI conjI)
  with distinct_example_db h2 h3 show ?thesis by (intro conjI)
qed

theorem reorderBlocks_mismatch_witness:
  "distinct (map id' (blocksStore example_db))
   \<and> (\<exists>db' puts. DataManager_reorderBlocks (\<lambda>i. 7) example_db ''p1'' [''d'', ''zz'', ''a'', ''b''] = Inr db'
        \<and> map id' (blocksStore db') = map id' (blocksStore example_db)
        \<and> requests db' = requests example_db @ map Put puts
        \<and> (\<forall>b\<in>set (blocksStore example_db). id' b \<notin> set [''d'', ''zz'', ''a'', ''b''] \<longrightarrow>
              db_get db' (id' b) = Some b))
   \<and> DataManager_reorderBlocks (\<lambda>i. 7) example_db ''p1'' [''d'', ''zz'', ''a'', ''b''] =
       Inr \<lparr>blocksStore =
              [(example_block ''a'' None 2)\<lparr>updatedAt := 7\<rparr>,
               (example_block ''b'' (Some ''a'') 3)\<lparr>updatedAt := 7\<rparr>,
               example_block ''c'' (Some ''b'') 2,
               (example_block ''d'' None 0)\<lparr>updatedAt := 7\<rparr>],
            requests =
              [Put ((example_block ''d'' None 0)\<lparr>updatedAt := 7\<rparr>),
               Put ((example_block ''a'' None 2)\<lparr>updatedAt := 7\<rparr>),
               Put ((example_block ''b'' (Some ''a'') 3)\<lparr>updatedAt := 7\<rparr>)]\<rparr>"
proof -
  from reorderBlocks_mismatch [OF distinct_example_db, of "\<lambda>i. 7" "''p1''" "[''d'', ''zz'', ''a'', ''b'']"]
  have "\<exists>db' puts. DataManager_reorderBlocks (\<lambda>i. 7) example_db ''p1'' [''d'', ''zz'', ''a'', ''b''] = Inr db'
        \<and> map id' (blocksStore db') = map id' (blocksStore example_db)
        \<and> requests db' = requests example_db @ map Put puts
        \<and> (\<forall>b\<in>set (blocksStore example_db). id' b \<notin> set [''d'', ''zz'', ''a'', ''b''] \<longrightarrow>
              db_get db' (id' b) = Some b)"
    by (elim exE conjE) (intro exI conjI)
  moreover have "DataManager_reorderBlocks (\<lambda>i. 7) example_db ''p1'' [''d'', ''zz'', ''a'', ''b''] =
       Inr \<lparr>blocksStore =
              [(example_block ''a'' None 2)\<lparr>updatedAt := 7\<rparr>,
               (example_block ''b'' (Some ''a'') 3)\<lparr>updatedAt := 7\<rparr>,
               example_block ''c'' (Some ''b'') 2,
               (example_block ''d'' None 0)\<lparr>updatedAt := 7\<rparr>],
            requests =
              [Put ((example_block ''d'' None 0)\<lparr>updatedAt := 7\<rparr>),
               Put ((example_block ''a'' None 2)\<lparr>updatedAt := 7\<rparr>),
               Put ((example_block ''b'' (Some ''a'') 3)\<lparr>updatedAt := 7\<rparr>)]\<rparr>"
    by (simp add: DataManager_reorderBlocks_def getBlocks_def db_getByIndex_pageId_def
        example_db_def example_block_def DataManager_updateBlock_def db_get_def db_update_def
        spread_def order_patch_def no_patch_def)
  ultimately show ?thesis
    using distinct_example_db by (intro conjI)
qed

section \<open>The block collection\<close>

lemma find_replaced:
  "\<exists>x\<in>set s. f x = k \<Longrightarrow> f b = k \<Longrightarrow>
     find (\<lambda>x. f x = k) (map (\<lambda>x. if f x = k then b else x) s) = Some b"
  by (induction s) auto

lemma find_appended:
  "k \<notin> f ` set s \<Longrightarrow> f b = k \<Longrightarrow> find (\<lambda>x. f x = k) (s @ [b]) = Some b"
  by (induction s) auto

lemma db_get_db_update: "db_get (db_update db b) (id' b) = Some b"
proof (cases "id' b \<in> id' ` set (blocksStore db)")
  case True
  then have "\<exists>x\<in>set (blocksStore db). id' x = id' b" by auto
  from find_replaced [OF this refl] True show ?thesis
    by (simp add: db_get_def db_update_def)
next
  case False
  from find_appended [OF this refl] False show ?thesis
    by (simp add: db_get_def db_update_def)
qed

lemma db_get_id: "db_get db i = Some r \<Longrightarrow> id' r = i"
  by (auto simp: db_get_def find_Some_iff)

lemma db_get_db_add:
  assumes "id' b \<notin> id' ` set (blocksStore db)"
  shows "\<exists>db'. db_add db b = Inr db' \<and> blocksStore db' = blocksStore db @ [b]
     \<and> requests db' = requests db @ [Add b] \<and> db_get db' (id' b) = Some b"
proof -
  let ?db' = "db\<lparr>blocksStore := blocksStore db @ [b], requests := requests db @ [Add b]\<rparr>"
  have "db_add db b = Inr ?db'"
    using assms by (simp add: db_add_def)
  moreover have "db_get ?db' (id' b) = Some b"
    using find_appended [OF assms refl] by (simp add: db_get_def)
  ultimately show ?thesis by simp
qed

text \<open>What \<open>createBlock\<close> does with a page open and a fresh id, in full.\<close>

lemma createBlock_result:
  assumes "currentPage st = Some pg" and "pg \<noteq> []"
    and "newId \<notin> id' ` set (blocksStore (data st))"
    and "b = \<lparr>id' = newId, pageId = pg, parentId = None,
             type' = or_default (Some t) ''paragraph'', content = or_default c '''',
             properties = opts,
             order = (if truthy_ref afterBlock then
                        (case ref_block (blocks st) (the afterBlock) of
                           Some afterBlockData \<Rightarrow> order afterBlockData + 1 | None \<Rightarrow> 0)
                      else int (card (dom (blocks st)))),
             createdAt = now, updatedAt = now\<rparr>"
  shows "BlockManager_createBlock newId now st t c afterBlock opts =
     Resolved (Some (renderBlock b))
       (st\<lparr>blocks := (blocks st)(newId \<mapsto> b),
           pageContent := insert_element afterBlock (renderBlock b) (pageContent st),
           data := (data st)\<lparr>blocksStore := blocksStore (data st) @ [b],
                             requests := requests (data st) @ [Add b]\<rparr>\<rparr>)"
proof -
  let ?k = "if truthy_ref afterBlock then
              (case ref_block (blocks st) (the afterBlock) of
                 Some afterBlockData \<Rightarrow> order afterBlockData + 1 | None \<Rightarrow> 0)
            else int (card (dom (blocks st)))"
  let ?b = "\<lparr>id' = newId, pageId = pg, parentId = None,
             type' = or_default (Some t) ''paragraph'', content = or_default c [],
             properties = opts, order = ?k, createdAt = now, updatedAt = now\<rparr>"
  have "id' ?b \<notin> id' ` set (blocksStore (data st))"
    using assms(3) by simp
  then have "db_add (data st) ?b =
      Inr ((data st)\<lparr>blocksStore := blocksStore (data st) @ [?b],
                      requests := requests (data st) @ [Add ?b]\<rparr>)"
    by (simp add: db_add_def)
  then have "BlockManager_createBlock newId now st t c afterBlock opts =
     Resolved (Some (renderBlock ?b))
       (st\<lparr>blocks := (blocks st)(newId \<mapsto> ?b),
           pageContent := insert_element afterBlock (renderBlock ?b) (pageContent st),
           data := (data st)\<lparr>blocksStore := blocksStore (data st) @ [?b],
                             requests := requests (data st) @ [Add ?b]\<rparr>\<rparr>)"
    using assms(1,2)
    by (simp add: BlockManager_createBlock_def DataManager_createBlock_def Let_def)
  then show ?thesis
    unfolding assms(4) .
qed



lemma top_level_sibling_count:
  assumes "\<forall>i x. m i = Some x \<longrightarrow> parentId x = None"
  shows "card (dom m) = sibling_count m None"
proof -
  have "dom m = {i. \<exists>x. m i = Some x \<and> parentId x = None}"
    using assms by (auto simp: dom_def)
  then show ?thesis by (simp add: sibling_count_def)
qed

lemma createBlock_no_page:
  "currentPage st = None \<or> currentPage st = Some [] \<Longrightarrow>
     BlockManager_createBlock newId now st t c afterBlock opts = Resolved None st"
  by (auto simp: BlockManager_createBlock_def)

lemma createBlock_unknown_reference:
  assumes "currentPage st = Some pg" and "pg \<noteq> []"
    and "newId \<notin> id' ` set (blocksStore (data st))"
    and "truthy_ref afterBlock" and "ref_block (blocks st) (the afterBlock) = None"
  shows "\<exists>el st'. BlockManager_createBlock newId now st t c afterBlock opts = Resolved (Some el) st'
     \<and> map_option order (blocks st' newId) = Some 0"
  using assms
  by (simp add: BlockManager_createBlock_def DataManager_createBlock_def db_add_def Let_def)

text \<open>
  Claim C6, as the code has it. For an id that is not in the collection \<open>updateBlock\<close>
  resolves and changes nothing. For an id of the collection the record of the collection
  becomes the old one overridden by the patch, with its \<open>updatedAt\<close> as it was unless the patch
  carries one. If the record is in the store the call resolves, and the stored record
  becomes the old stored one overridden by the patch with \<open>updatedAt\<close> set to the time of the
  call; if it is not, the call rejects with \<open>Block not found\<close> and the store stays as it
  is. Nothing else of the state changes.
\<close>

theorem updateBlock_contract:
  "(blocks st i = None \<longrightarrow> BlockManager_updateBlock now st i d = Resolved () st)
   \<and> (\<forall>b r. blocks st i = Some b \<and> db_get (data st) i = Some r \<longrightarrow>
        (\<exists>st'. BlockManager_updateBlock now st i d = Resolved () st'
          \<and> blocks st' = (blocks st)(i \<mapsto> spread b d)
          \<and> updatedAt (spread b d) = (case p_updatedAt d of None \<Rightarrow> updatedAt b | Some v \<Rightarrow> v)
          \<and> data st' = db_update (data st) ((spread r d)\<lparr>updatedAt := now\<rparr>)
          \<and> db_get (data st') (id' (spread r d)) = Some ((spread r d)\<lparr>updatedAt := now\<rparr>)
          \<and> requests (data st') = requests (data st) @ [Put ((spread r d)\<lparr>updatedAt := now\<rparr>)]
          \<and> currentPage st' = currentPage st \<and> pageContent st' = pageContent st
          \<and> blockMenu st' = blockMenu st))
   \<and> (\<forall>b. blocks st i = Some b \<and> db_get (data st) i = None \<longrightarrow>
        BlockManager_updateBlock now st i d =
          Rejected BlockNotFound (st\<lparr>blocks := (blocks st)(i \<mapsto> spread b d)\<rparr>))"
proof (intro conjI allI impI)
  assume "blocks st i = None"
  then show "BlockManager_updateBlock now st i d = Resolved () st"
    by (simp add: BlockManager_updateBlock_def)
next
  fix b r
  assume a: "blocks st i = Some b \<and> db_get (data st) i = Some r"
  let ?u = "(spread r d)\<lparr>updatedAt := now\<rparr>"
  let ?st' = "st\<lparr>blocks := (blocks st)(i \<mapsto> spread b d), data := db_update (data st) ?u\<rparr>"
  have "BlockManager_updateBlock now st i d = Resolved () ?st'"
    using a by (simp add: BlockManager_updateBlock_def DataManager_updateBlock_def Let_def)
  moreover have "db_get (db_update (data st) ?u) (id' ?u) = Some ?u"
    by (rule db_get_db_update)
  then have "db_get (data ?st') (id' (spread r d)) = Some ?u"
    by simp
  moreover have "requests (data ?st') = requests (data st) @ [Put ?u]"
    by (simp add: db_update_def)
  moreover have "updatedAt (spread b d) = (case p_updatedAt d of None \<Rightarrow> updatedAt b | Some v \<Rightarrow> v)"
    by (simp add: spread_def)
  ultimately show "\<exists>st'. BlockManager_updateBlock now st i d = Resolved () st'
          \<and> blocks st' = (blocks st)(i \<mapsto> spread b d)
          \<and> updatedAt (spread b d) = (case p_updatedAt d of None \<Rightarrow> updatedAt b | Some v \<Rightarrow> v)
          \<and> data st' = db_update (data st) ((spread r d)\<lparr>updatedAt := now\<rparr>)
          \<and> db_get (data st') (id' (spread r d)) = Some ((spread r d)\<lparr>updatedAt := now\<rparr>)
          \<and> requests (data st') = requests (data st) @ [Put ((spread r d)\<lparr>updatedAt := now\<rparr>)]
          \<and> currentPage st' = currentPage st \<and> pageContent st' = pageContent st
          \<and> blockMenu st' = blockMenu st"
    by (intro exI [of _ ?st']) simp
next
  fix b
  assume "blocks st i = Some b \<and> db_get (data st) i = None"
  then show "BlockManager_updateBlock now st i d =
          Rejected BlockNotFound (st\<lparr>blocks := (blocks st)(i \<mapsto> spread b d)\<rparr>)"
    by (simp add: BlockManager_updateBlock_def DataManager_updateBlock_def Let_def)
qed

text \<open>
  Against claim C6 as stated: after a content patch at time 9 on the block \<open>a\<close> of the example
  page the stored record has \<open>updatedAt\<close> 9 and the record of the collection still has 0; and
  on a collection whose store is empty the same call rejects.
\<close>

theorem updateBlock_stale_updatedAt_counterexample:
  "map_option updatedAt
     (blocks (outcome_state
        (BlockManager_updateBlock 9 example_app ''a'' (no_patch\<lparr>p_content := Some ''hi''\<rparr>))) ''a'')
     = Some 0
   \<and> map_option updatedAt
     (db_get (data (outcome_state
        (BlockManager_updateBlock 9 example_app ''a'' (no_patch\<lparr>p_content := Some ''hi''\<rparr>)))) ''a'')
     = Some 9
   \<and> BlockManager_updateBlock 9 (example_app\<lparr>data := \<lparr>blocksStore = [], requests = []\<rparr>\<rparr>) ''a''
        (no_patch\<lparr>p_content := Some ''hi''\<rparr>)
     = Rejected BlockNotFound
         (example_app\<lparr>data := \<lparr>blocksStore = [], requests = []\<rparr>,
            blocks := (blocks example_app)(''a'' \<mapsto> (example_block ''a'' None 0)\<lparr>content := ''hi''\<rparr>)\<rparr>)"
  by (simp add: BlockManager_updateBlock_def DataManager_updateBlock_def Let_def db_get_def
      db_update_def spread_def no_patch_def example_app_def example_db_def example_block_def)

lemma example_app_blocks:
  "blocks example_app ''a'' = Some (example_block ''a'' None 0)"
  "blocks example_app ''b'' = Some (example_block ''b'' (Some ''a'') 1)"
  "blocks example_app ''zz'' = None"
  "dom (blocks example_app) = {''a'', ''b'', ''c'', ''d''}"
  by (auto simp: example_app_def example_db_def example_block_def dom_map_of_conv_image_fst)

lemma example_app_store:
  "''n1'' \<notin> id' ` set (blocksStore (data example_app))"
  "db_get (data example_app) ''a'' = Some (example_block ''a'' None 0)"
  by (simp_all add: example_app_def example_db_def example_block_def db_get_def)


theorem updateBlock_contract_witness:
  "blocks example_app ''zz'' = None
   \<and> BlockManager_updateBlock 9 example_app ''zz'' (no_patch\<lparr>p_content := Some ''hi''\<rparr>)
       = Resolved () example_app
   \<and> blocks example_app ''a'' = Some (example_block ''a'' None 0)
   \<and> db_get (data example_app) ''a'' = Some (example_block ''a'' None 0)
   \<and> (\<exists>st'. BlockManager_updateBlock 9 example_app ''a'' (no_patch\<lparr>p_content := Some ''hi''\<rparr>)
          = Resolved () st'
        \<and> blocks st' ''a'' = Some ((example_block ''a'' None 0)\<lparr>content := ''hi''\<rparr>)
        \<and> db_get (data st') ''a'' = Some ((example_block ''a'' None 0)\<lparr>content := ''hi'', updatedAt := 9\<rparr>))
   \<and> blocks (example_app\<lparr>data := \<lparr>blocksStore = [], requests = []\<rparr>\<rparr>) ''a''
       = Some (example_block ''a'' None 0)
   \<and> db_get (data (example_app\<lparr>data := \<lparr>blocksStore = [], requests = []\<rparr>\<rparr>)) ''a'' = None
   \<and> BlockManager_updateBlock 9 (example_app\<lparr>data := \<lparr>blocksStore = [], requests = []\<rparr>\<rparr>) ''a''
        (no_patch\<lparr>p_content := Some ''hi''\<rparr>)
       = Rejected BlockNotFound
           (example_app\<lparr>data := \<lparr>blocksStore = [], requests = []\<rparr>,
              blocks := (blocks example_app)(''a'' \<mapsto> (example_block ''a'' None 0)\<lparr>content := ''hi''\<rparr>)\<rparr>)"
proof -
  let ?e = "example_app\<lparr>data := \<lparr>blocksStore = [], requests = []\<rparr>\<rparr>"
  let ?d = "no_patch\<lparr>p_content := Some ''hi''\<rparr>"
  have s: "spread (example_block ''a'' None 0) ?d = (example_block ''a'' None 0)\<lparr>content := ''hi''\<rparr>"
    by (simp add: spread_def no_patch_def example_block_def)
  have i: "id' ((example_block ''a'' None 0)\<lparr>content := ''hi''\<rparr>) = ''a''"
    by (simp add: example_block_def)
  from updateBlock_contract [of example_app "''zz''" 9 ?d] example_app_blocks(3)
  have u: "BlockManager_updateBlock 9 example_app ''zz'' ?d = Resolved () example_app"
    by blast
  from updateBlock_contract [of example_app "''a''" 9 ?d] example_app_blocks(1) example_app_store(2)
  have "\<exists>st'. BlockManager_updateBlock 9 example_app ''a'' ?d = Resolved () st'
          \<and> blocks st' = (blocks example_app)(''a'' \<mapsto> spread (example_block ''a'' None 0) ?d)
          \<and> db_get (data st') (id' (spread (example_block ''a'' None 0) ?d))
              = Some ((spread (example_block ''a'' None 0) ?d)\<lparr>updatedAt := 9\<rparr>)"
    by blast
  then have k: "\<exists>st'. BlockManager_updateBlock 9 example_app ''a'' ?d = Resolved () st'
        \<and> blocks st' ''a'' = Some ((example_block ''a'' None 0)\<lparr>content := ''hi''\<rparr>)
        \<and> db_get (data st') ''a'' = Some ((example_block ''a'' None 0)\<lparr>content := ''hi'', updatedAt := 9\<rparr>)"
    unfolding s i by (elim exE conjE) (intro exI conjI, assumption, simp_all)
  have e1: "blocks ?e ''a'' = Some (example_block ''a'' None 0)"
    by (simp add: example_app_blocks(1))
  have e2: "db_get (data ?e) ''a'' = None"
    by (simp add: db_get_def)
  from updateBlock_contract [of ?e "''a''" 9 ?d] e1 e2
  have "BlockManager_updateBlock 9 ?e ''a'' ?d
      = Rejected BlockNotFound (?e\<lparr>blocks := (blocks ?e)(''a'' \<mapsto> spread (example_block ''a'' None 0) ?d)\<rparr>)"
    by blast
  then have j: "BlockManager_updateBlock 9 ?e ''a'' ?d
      = Rejected BlockNotFound
           (example_app\<lparr>data := \<lparr>blocksStore = [], requests = []\<rparr>,
              blocks := (blocks example_app)(''a'' \<mapsto> (example_block ''a'' None 0)\<lparr>content := ''hi''\<rparr>)\<rparr>)"
    unfolding s by simp
  from example_app_blocks(3) u example_app_blocks(1) example_app_store(2) k e1 e2 j
  show ?thesis by (intro conjI)
qed

section \<open>Conversion\<close>

lemma querySelector_Some:
  "querySelector els i = Some k \<Longrightarrow> k < length els \<and> blockId (els ! k) = Some i"
proof (induction els arbitrary: k)
  case Nil
  then show ?case by simp
next
  case (Cons e es)
  then show ?case by (cases "blockId e = Some i") auto
qed

lemma querySelector_update:
  "querySelector els i = Some k \<Longrightarrow> blockId e = Some i \<Longrightarrow> querySelector (els[k := e]) i = Some k"
proof (induction els arbitrary: k)
  case Nil
  then show ?case by simp
next
  case (Cons x xs)
  then show ?case by (cases "blockId x = Some i") auto
qed

lemma spread_type_patch: "spread r (type_patch t) = r\<lparr>type' := t\<rparr>"
  by (simp add: spread_def type_patch_def no_patch_def)

text \<open>One call of \<open>convertBlock\<close> on a block that is in the collection, on the page and in the store.\<close>

lemma convertBlock_step:
  assumes "blocks st i = Some b" and "querySelector (pageContent st) i = Some k"
    and "db_get (data st) i = Some r"
  shows "convertBlock now st i t =
     Resolved ()
       (st\<lparr>blocks := (blocks st)(i \<mapsto> b\<lparr>type' := t\<rparr>),
           data := db_update (data st) (r\<lparr>type' := t, updatedAt := now\<rparr>),
           pageContent := (pageContent st)[k := renderBlock (b\<lparr>type' := t\<rparr>)]\<rparr>)"
  using assms
  by (simp add: convertBlock_def convertBlock_begin_def convertBlock_resume_def
      DataManager_updateBlock_def spread_type_patch Let_def)

text \<open>
  Whatever the page and the store hold, one call of \<open>convertBlock\<close> leaves the record of the
  collection as it was or changes its type only.
\<close>

lemma convertBlock_frame:
  assumes "blocks st i = Some b"
  shows "blocks (outcome_state (convertBlock now st i t)) i = Some b
     \<or> blocks (outcome_state (convertBlock now st i t)) i = Some (b\<lparr>type' := t\<rparr>)"
  using assms
  by (auto simp: convertBlock_def convertBlock_begin_def convertBlock_resume_def Let_def
      split: option.splits sum.splits)

lemma convert_all_result:
  assumes "ts \<noteq> []"
  shows "blocks st i = Some b \<Longrightarrow> id' b = i \<Longrightarrow> querySelector (pageContent st) i = Some k \<Longrightarrow>
     db_get (data st) i = Some r \<Longrightarrow>
     \<exists>st'. convert_all st i ts = Resolved () st'
       \<and> blocks st' i = Some (b\<lparr>type' := snd (last ts)\<rparr>)
       \<and> db_get (data st') i = Some (r\<lparr>type' := snd (last ts), updatedAt := fst (last ts)\<rparr>)
       \<and> querySelector (pageContent st') i = Some k
       \<and> pageContent st' ! k = renderBlock (b\<lparr>type' := snd (last ts)\<rparr>)
       \<and> length (pageContent st') = length (pageContent st)
       \<and> currentPage st' = currentPage st \<and> blockMenu st' = blockMenu st
       \<and> (\<forall>j. j \<noteq> i \<longrightarrow> blocks st' j = blocks st j)"
  using assms
proof (induction ts arbitrary: st b r rule: list_nonempty_induct)
  case (single x)
  obtain now t where x: "x = (now, t)" by (cases x)
  let ?b = "b\<lparr>type' := t\<rparr>"
  let ?r = "r\<lparr>type' := t, updatedAt := now\<rparr>"
  let ?st = "st\<lparr>blocks := (blocks st)(i \<mapsto> ?b),
           data := db_update (data st) ?r,
           pageContent := (pageContent st)[k := renderBlock ?b]\<rparr>"
  have one: "convertBlock now st i t = Resolved () ?st"
    using single(1,3,4) by (rule convertBlock_step)
  have idr: "id' r = i"
    using single(4) by (rule db_get_id)
  have idb: "blockId (renderBlock ?b) = Some i"
    using single(2) by (simp add: renderBlock_def)
  from querySelector_Some [OF single(3)] have k: "k < length (pageContent st)" by simp
  have "convert_all st i [x] = Resolved () ?st"
    using one x by simp
  moreover have "blocks ?st i = Some (b\<lparr>type' := snd (last [x])\<rparr>)"
    using x by simp
  moreover have "db_get (data ?st) i = Some (r\<lparr>type' := snd (last [x]), updatedAt := fst (last [x])\<rparr>)"
    using db_get_db_update [of "data st" ?r] idr x by simp
  moreover have "querySelector (pageContent ?st) i = Some k"
    using querySelector_update [OF single(3) idb] by simp
  moreover have "pageContent ?st ! k = renderBlock (b\<lparr>type' := snd (last [x])\<rparr>)"
    using k x by simp
  moreover have "length (pageContent ?st) = length (pageContent st)
       \<and> currentPage ?st = currentPage st \<and> blockMenu ?st = blockMenu st
       \<and> (\<forall>j. j \<noteq> i \<longrightarrow> blocks ?st j = blocks st j)"
    by simp
  ultimately show ?case by blast
next
  case (cons x ts)
  obtain now t where x: "x = (now, t)" by (cases x)
  let ?b = "b\<lparr>type' := t\<rparr>"
  let ?r = "r\<lparr>type' := t, updatedAt := now\<rparr>"
  let ?st = "st\<lparr>blocks := (blocks st)(i \<mapsto> ?b),
           data := db_update (data st) ?r,
           pageContent := (pageContent st)[k := renderBlock ?b]\<rparr>"
  have one: "convertBlock now st i t = Resolved () ?st"
    using cons.prems(1,3,4) by (rule convertBlock_step)
  have idr: "id' r = i"
    using cons.prems(4) by (rule db_get_id)
  have idb: "blockId (renderBlock ?b) = Some i"
    using cons.prems(2) by (simp add: renderBlock_def)
  have b1: "blocks ?st i = Some ?b" by simp
  have i1: "id' ?b = i" using cons.prems(2) by simp
  have q1: "querySelector (pageContent ?st) i = Some k"
    using querySelector_update [OF cons.prems(3) idb] by simp
  have r1: "db_get (data ?st) i = Some ?r"
    using db_get_db_update [of "data st" ?r] idr by simp
  from cons.IH [OF b1 i1 q1 r1] obtain st' where st':
    "convert_all ?st i ts = Resolved () st'"
    "blocks st' i = Some (?b\<lparr>type' := snd (last ts)\<rparr>)"
    "db_get (data st') i = Some (?r\<lparr>type' := snd (last ts), updatedAt := fst (last ts)\<rparr>)"
    "querySelector (pageContent st') i = Some k"
    "pageContent st' ! k = renderBlock (?b\<lparr>type' := snd (last ts)\<rparr>)"
    "length (pageContent st') = length (pageContent ?st)"
    "currentPage st' = currentPage ?st" "blockMenu st' = blockMenu ?st"
    "\<forall>j. j \<noteq> i \<longrightarrow> blocks st' j = blocks ?st j"
    by blast
  have "convert_all st i (x # ts) = Resolved () st'"
    using one x st'(1) by simp
  moreover have "blocks st' i = Some (b\<lparr>type' := snd (last (x # ts))\<rparr>)"
    using st'(2) cons.hyps by simp
  moreover have "db_get (data st') i =
      Some (r\<lparr>type' := snd (last (x # ts)), updatedAt := fst (last (x # ts))\<rparr>)"
    using st'(3) cons.hyps by simp
  moreover have "pageContent st' ! k = renderBlock (b\<lparr>type' := snd (last (x # ts))\<rparr>)"
    using st'(5) cons.hyps by simp
  moreover have "length (pageContent st') = length (pageContent st)
       \<and> currentPage st' = currentPage st \<and> blockMenu st' = blockMenu st
       \<and> (\<forall>j. j \<noteq> i \<longrightarrow> blocks st' j = blocks st j)"
    using st'(6,7,8,9) by simp
  ultimately show ?case using st'(4) by blast
qed

text \<open>
  Claim C3, as the code has it. A block that is in the collection under its id, on the page
  and in the store goes through any run of \<open>convertBlock\<close> calls without a rejection, and
  after the run (so after each of its calls) the record of the collection is the first one
  with the last type, and the stored record is the first stored one with the last type and
  the time of the last call as \<open>updatedAt\<close>: \<open>id\<close>, \<open>pageId\<close>, \<open>parentId\<close>, \<open>order\<close>, \<open>content\<close>,
  \<open>createdAt\<close> and also \<open>properties\<close> are as before. The element of the block keeps its place and
  is rendered from the converted record.
\<close>

theorem convertBlock_preserves:
  assumes "ts \<noteq> []"
    and "blocks st i = Some b" and "id' b = i"
    and "querySelector (pageContent st) i = Some k"
    and "db_get (data st) i = Some r"
  shows "\<exists>st' b' r'. convert_all st i ts = Resolved () st'
     \<and> blocks st' i = Some b' \<and> db_get (data st') i = Some r'
     \<and> b' = b\<lparr>type' := snd (last ts)\<rparr>
     \<and> r' = r\<lparr>type' := snd (last ts), updatedAt := fst (last ts)\<rparr>
     \<and> id' b' = id' b \<and> pageId b' = pageId b \<and> order b' = order b \<and> content b' = content b
     \<and> properties b' = properties b
     \<and> id' r' = id' r \<and> pageId r' = pageId r \<and> order r' = order r \<and> content r' = content r
     \<and> properties r' = properties r
     \<and> pageContent st' ! k = renderBlock b'
     \<and> length (pageContent st') = length (pageContent st)"
proof -
  from convert_all_result [OF assms] obtain st' where st':
    "convert_all st i ts = Resolved () st'"
    "blocks st' i = Some (b\<lparr>type' := snd (last ts)\<rparr>)"
    "db_get (data st') i = Some (r\<lparr>type' := snd (last ts), updatedAt := fst (last ts)\<rparr>)"
    "pageContent st' ! k = renderBlock (b\<lparr>type' := snd (last ts)\<rparr>)"
    "length (pageContent st') = length (pageContent st)"
    by blast
  then show ?thesis by simp
qed

text \<open>
  Against claim C3 as stated: a checked to-do block converted to a paragraph keeps the
  property \<open>checked\<close> of the to-do, in the collection and in the store; nothing is reset.
\<close>

theorem convertBlock_keeps_properties_counterexample:
  "map_option properties (blocks (outcome_state (convertBlock 9 todo_app ''t'' ''paragraph'')) ''t'')
     = Some [(''checked'', ''true'')]
   \<and> map_option properties (db_get (data (outcome_state (convertBlock 9 todo_app ''t'' ''paragraph''))) ''t'')
     = Some [(''checked'', ''true'')]
   \<and> map_option type' (blocks (outcome_state (convertBlock 9 todo_app ''t'' ''paragraph'')) ''t'')
     = Some ''paragraph''"
  by (simp add: convertBlock_def convertBlock_begin_def convertBlock_resume_def
      DataManager_updateBlock_def db_get_def db_update_def spread_type_patch Let_def
      todo_app_def todo_block_def example_block_def renderBlock_def has_content_def)

theorem convertBlock_preserves_witness:
  "[(5::timestamp, ''heading1''), (6, ''quote'')] \<noteq> []
   \<and> blocks todo_app ''t'' = Some todo_block \<and> id' todo_block = ''t''
   \<and> querySelector (pageContent todo_app) ''t'' = Some 0
   \<and> db_get (data todo_app) ''t'' = Some todo_block
   \<and> (\<exists>st'. convert_all todo_app ''t'' [(5, ''heading1''), (6, ''quote'')] = Resolved () st'
        \<and> blocks st' ''t'' = Some (todo_block\<lparr>type' := ''quote''\<rparr>)
        \<and> db_get (data st') ''t'' = Some (todo_block\<lparr>type' := ''quote'', updatedAt := 6\<rparr>))"
proof -
  have h1: "[(5::nat, ''heading1''), (6, ''quote'')] \<noteq> []" by simp
  have h2: "blocks todo_app ''t'' = Some todo_block"
    by (simp add: todo_app_def)
  have h3: "id' todo_block = ''t''"
    by (simp add: todo_block_def example_block_def)
  have h4: "querySelector (pageContent todo_app) ''t'' = Some 0"
    by (simp add: todo_app_def renderBlock_def h3)
  have h5: "db_get (data todo_app) ''t'' = Some todo_block"
    by (simp add: todo_app_def db_get_def h3)
  from convertBlock_preserves [OF h1 h2 h3 h4 h5]
  have "\<exists>st'. convert_all todo_app ''t'' [(5, ''heading1''), (6, ''quote'')] = Resolved () st'
        \<and> blocks st' ''t'' = Some (todo_block\<lparr>type' := ''quote''\<rparr>)
        \<and> db_get (data st') ''t'' = Some (todo_block\<lparr>type' := ''quote'', updatedAt := 6\<rparr>)"
    by (elim exE conjE) (intro exI conjI, assumption, simp_all)
  with h1 h2 h3 h4 h5 show ?thesis by (intro conjI)
qed

section \<open>Markdown shortcuts\<close>

lemma find_key:
  "distinct (map fst xs) \<Longrightarrow> (k, v) \<in> set xs \<Longrightarrow> find (\<lambda>(a, b). k = a) xs = Some (k, v)"
  by (induction xs) (auto simp: rev_image_eqI)

lemma distinct_shortcuts: "distinct (map fst shortcuts)"
  by (simp add: shortcuts_def)

lemma shortcut_find:
  "(text, t) \<in> set shortcuts \<Longrightarrow>
     find (\<lambda>(shortcut, type). text = shortcut) shortcuts = Some (text, t)"
  using distinct_shortcuts by (rule find_key)

text \<open>
  A space typed in a block whose text is a trigger: the block is converted where it stands
  and nothing is created. The new element is rendered from the record of the collection,
  so it shows the content of that record and not the text that the handler cleared.
\<close>

lemma checkMarkdownShortcut_converts:
  assumes "textContent (pageContent st ! k) = Some text" and "(text, t) \<in> set shortcuts"
    and "blockId (pageContent st ! k) = Some i" and "blocks st i = Some b"
    and "querySelector (pageContent st) i = Some k" and "db_get (data st) i = Some r"
  shows "checkMarkdownShortcut now st k =
     Resolved True
       (st\<lparr>blocks := (blocks st)(i \<mapsto> b\<lparr>type' := t\<rparr>),
           data := db_update (data st) (r\<lparr>type' := t, updatedAt := now\<rparr>),
           pageContent := (pageContent st)[k := renderBlock (b\<lparr>type' := t\<rparr>)]\<rparr>)"
  using assms shortcut_find [OF assms(2)]
  by (simp add: checkMarkdownShortcut_def convertBlock_begin_def convertBlock_resume_def
      DataManager_updateBlock_def spread_type_patch Let_def)

lemma checkMarkdownShortcut_text:
  assumes "textContent (pageContent st ! k) = Some text" and "(text, t) \<in> set shortcuts"
    and "blockId (pageContent st ! k) = Some i" and "blocks st i = Some b"
    and "querySelector (pageContent st) i = Some k" and "db_get (data st) i = Some r"
  shows "textContent (pageContent (outcome_state (checkMarkdownShortcut now st k)) ! k)
     = (if has_content t then Some (content b) else None)
   \<and> length (pageContent (outcome_state (checkMarkdownShortcut now st k))) = length (pageContent st)
   \<and> blockType (pageContent (outcome_state (checkMarkdownShortcut now st k)) ! k) = t"
proof -
  from querySelector_Some [OF assms(5)] have "k < length (pageContent st)" by simp
  then show ?thesis
    by (simp add: checkMarkdownShortcut_converts [OF assms] renderBlock_def)
qed

text \<open>
  Claim C7 at a block whose typed text \<open>##\<close> has been saved by the debounced input handler
  before the space is pressed: the block becomes a \<open>heading2\<close> in place, but the element that
  replaces it shows \<open>##\<close> again, and the collection and the store keep \<open>##\<close> as content.
\<close>

theorem checkMarkdownShortcut_saved_trigger:
  "textContent (pageContent typed_app ! 0) = Some ''##''
   \<and> pageContent (outcome_state (checkMarkdownShortcut 9 typed_app 0))
       = [\<lparr>blockId = Some ''a'', blockType = ''heading2'', textContent = Some ''##''\<rparr>]
   \<and> map_option content (blocks (outcome_state (checkMarkdownShortcut 9 typed_app 0)) ''a'')
       = Some ''##''
   \<and> map_option content (db_get (data (outcome_state (checkMarkdownShortcut 9 typed_app 0))) ''a'')
       = Some ''##''"
  by (simp add: checkMarkdownShortcut_def shortcuts_def convertBlock_begin_def
      convertBlock_resume_def DataManager_updateBlock_def db_get_def db_update_def
      spread_type_patch Let_def typed_app_def typed_block_def example_block_def renderBlock_def
      has_content_def)

section \<open>The block menu\<close>

lemma arrow_key_step:
  assumes "isOpen (blockMenu st)" and "e = ArrowUp \<or> e = ArrowDown"
    and "0 \<le> selectedIndex (blockMenu st)" and "selectedIndex (blockMenu st) < int (length items)"
  shows "\<exists>k. BlockMenu_keydown newId now items st e
       = Resolved () (st\<lparr>blockMenu := (blockMenu st)\<lparr>selectedIndex := k\<rparr>\<rparr>)
     \<and> 0 \<le> k \<and> k < int (length items)"
proof -
  from assms(2) show ?thesis
  proof
    assume "e = ArrowUp"
    then have "BlockMenu_keydown newId now items st e
       = Resolved () (st\<lparr>blockMenu := (blockMenu st)\<lparr>selectedIndex :=
           max (selectedIndex (blockMenu st) - 1) 0\<rparr>\<rparr>)"
      using assms(1) by (simp add: BlockMenu_keydown_def Let_def)
    moreover have "0 \<le> max (selectedIndex (blockMenu st) - 1) 0"
      "max (selectedIndex (blockMenu st) - 1) 0 < int (length items)"
      using assms(3,4) by linarith+
    ultimately show ?thesis by blast
  next
    assume "e = ArrowDown"
    then have "BlockMenu_keydown newId now items st e
       = Resolved () (st\<lparr>blockMenu := (blockMenu st)\<lparr>selectedIndex :=
           min (selectedIndex (blockMenu st) + 1) (int (length items) - 1)\<rparr>\<rparr>)"
      using assms(1) by (simp add: BlockMenu_keydown_def Let_def)
    moreover have "0 \<le> min (selectedIndex (blockMenu st) + 1) (int (length items) - 1)"
      "min (selectedIndex (blockMenu st) + 1) (int (length items) - 1) < int (length items)"
      using assms(3,4) by linarith+
    ultimately show ?thesis by blast
  qed
qed

lemma press_arrow_keys:
  "isOpen (blockMenu st) \<Longrightarrow> set es \<subseteq> {ArrowUp, ArrowDown} \<Longrightarrow>
   0 \<le> selectedIndex (blockMenu st) \<Longrightarrow> selectedIndex (blockMenu st) < int (length items) \<Longrightarrow>
   \<exists>k. press_keys newId now items st es = st\<lparr>blockMenu := (blockMenu st)\<lparr>selectedIndex := k\<rparr>\<rparr>
     \<and> 0 \<le> k \<and> k < int (length items)"
proof (induction es arbitrary: st)
  case Nil
  have "press_keys newId now items st [] =
      st\<lparr>blockMenu := (blockMenu st)\<lparr>selectedIndex := selectedIndex (blockMenu st)\<rparr>\<rparr>"
    by simp
  with Nil.prems(3,4) show ?case by blast
next
  case (Cons e es)
  from Cons.prems(2) have e: "e = ArrowUp \<or> e = ArrowDown" by auto
  from arrow_key_step [OF Cons.prems(1) e Cons.prems(3,4), of newId now] obtain k where k:
    "BlockMenu_keydown newId now items st e
       = Resolved () (st\<lparr>blockMenu := (blockMenu st)\<lparr>selectedIndex := k\<rparr>\<rparr>)"
    "0 \<le> k" "k < int (length items)"
    by blast
  let ?st = "st\<lparr>blockMenu := (blockMenu st)\<lparr>selectedIndex := k\<rparr>\<rparr>"
  have o: "isOpen (blockMenu ?st)" using Cons.prems(1) by simp
  have s: "set es \<subseteq> {ArrowUp, ArrowDown}" using Cons.prems(2) by simp
  have lo: "0 \<le> selectedIndex (blockMenu ?st)" using k(2) by simp
  have hi: "selectedIndex (blockMenu ?st) < int (length items)" using k(3) by simp
  from Cons.IH [OF o s lo hi] obtain k' where k':
    "press_keys newId now items ?st es = ?st\<lparr>blockMenu := (blockMenu ?st)\<lparr>selectedIndex := k'\<rparr>\<rparr>"
    "0 \<le> k'" "k' < int (length items)"
    by blast
  have "press_keys newId now items st (e # es) = press_keys newId now items ?st es"
    by (simp add: k(1))
  also have "\<dots> = st\<lparr>blockMenu := (blockMenu st)\<lparr>selectedIndex := k'\<rparr>\<rparr>"
    by (simp add: k'(1))
  finally show ?case using k'(2,3) by blast
qed

lemma hide_closed: "\<not> isOpen (blockMenu (BlockMenu_hide st))"
  by (simp add: BlockMenu_hide_def)

lemma then_hide_closes:
  "(case x of Rejected e st2 \<Rightarrow> Rejected e st2 | Resolved u st2 \<Rightarrow> Resolved () (BlockMenu_hide st2))
     = Resolved () st' \<Longrightarrow> \<not> isOpen (blockMenu st')"
  by (cases x) (auto simp: hide_closed)

lemma selectType_closes:
  assumes "BlockMenu_selectType newId now st t = Resolved () st'"
  shows "\<not> isOpen (blockMenu st')"
proof (cases "targetBlock (blockMenu st)")
  case None
  with assms have "st' = BlockMenu_hide st"
    by (simp add: BlockMenu_selectType_def)
  then show ?thesis by (simp add: hide_closed)
next
  case (Some k)
  define target' where "target' =
    (if textContent (pageContent st ! k) = Some ''/''
     then (pageContent st ! k)\<lparr>textContent := Some ''''\<rparr> else pageContent st ! k)"
  define st1 where "st1 = st\<lparr>pageContent := (pageContent st)[k := target']\<rparr>"
  define c where "c \<longleftrightarrow>
    blockId target' \<noteq> None \<and> blockId target' \<noteq> Some '''' \<and> textContent target' = Some ''''"
  have unfold: "BlockMenu_selectType newId now st t =
      (if c then
         (case convertBlock now st1 (the (blockId target')) t of
            Rejected e st2 \<Rightarrow> Rejected e st2
          | Resolved u st2 \<Rightarrow> Resolved () (BlockMenu_hide st2))
       else
         (case BlockManager_createBlock newId now st1 t (Some '''')
                 (Some (Element (blockId target') (Some k))) [] of
            Rejected e st2 \<Rightarrow> Rejected e st2
          | Resolved newBlock st2 \<Rightarrow> Resolved () (BlockMenu_hide st2)))"
    unfolding BlockMenu_selectType_def Let_def Some c_def st1_def target'_def
    by (simp only: option.case)
  show ?thesis
  proof (cases c)
    case True
    with assms unfold have "(case convertBlock now st1 (the (blockId target')) t of
            Rejected e st2 \<Rightarrow> Rejected e st2
          | Resolved u st2 \<Rightarrow> Resolved () (BlockMenu_hide st2)) = Resolved () st'"
      by simp
    then show ?thesis by (rule then_hide_closes)
  next
    case False
    with assms unfold have "(case BlockManager_createBlock newId now st1 t (Some '''')
                 (Some (Element (blockId target') (Some k))) [] of
            Rejected e st2 \<Rightarrow> Rejected e st2
          | Resolved newBlock st2 \<Rightarrow> Resolved () (BlockMenu_hide st2)) = Resolved () st'"
      by simp
    then show ?thesis by (rule then_hide_closes)
  qed
qed

text \<open>
  \<open>selectType\<close> on a target that carries the id of a block of the collection and the store, and
  whose text is empty or the lone slash: the block is converted in place.
\<close>

lemma selectType_converts:
  assumes "targetBlock (blockMenu st) = Some k"
    and "querySelector (pageContent st) i = Some k" and "i \<noteq> []"
    and "textContent (pageContent st ! k) = Some '''' \<or> textContent (pageContent st ! k) = Some ''/''"
    and "blocks st i = Some b" and "db_get (data st) i = Some r"
  shows "BlockMenu_selectType newId now st t =
     Resolved ()
       (BlockMenu_hide
         (st\<lparr>blocks := (blocks st)(i \<mapsto> b\<lparr>type' := t\<rparr>),
             data := db_update (data st) (r\<lparr>type' := t, updatedAt := now\<rparr>),
             pageContent := (pageContent st)[k := renderBlock (b\<lparr>type' := t\<rparr>)]\<rparr>))"
proof -
  define target' where "target' =
    (if textContent (pageContent st ! k) = Some ''/''
     then (pageContent st ! k)\<lparr>textContent := Some ''''\<rparr> else pageContent st ! k)"
  define st1 where "st1 = st\<lparr>pageContent := (pageContent st)[k := target']\<rparr>"
  define c where "c \<longleftrightarrow>
    blockId target' \<noteq> None \<and> blockId target' \<noteq> Some '''' \<and> textContent target' = Some ''''"
  have unfold: "BlockMenu_selectType newId now st t =
      (if c then
         (case convertBlock now st1 (the (blockId target')) t of
            Rejected e st2 \<Rightarrow> Rejected e st2
          | Resolved u st2 \<Rightarrow> Resolved () (BlockMenu_hide st2))
       else
         (case BlockManager_createBlock newId now st1 t (Some '''')
                 (Some (Element (blockId target') (Some k))) [] of
            Rejected e st2 \<Rightarrow> Rejected e st2
          | Resolved newBlock st2 \<Rightarrow> Resolved () (BlockMenu_hide st2)))"
    unfolding BlockMenu_selectType_def Let_def assms(1) c_def st1_def target'_def
    by (simp only: option.case)
  from querySelector_Some [OF assms(2)]
  have k: "k < length (pageContent st)" and bi: "blockId (pageContent st ! k) = Some i"
    by simp_all
  have ti: "blockId target' = Some i"
    using bi by (simp add: target'_def)
  have tt: "textContent target' = Some ''''"
    using assms(4) by (auto simp: target'_def)
  have c: c
    using ti tt assms(3) by (simp add: c_def)
  have q1: "querySelector (pageContent st1) i = Some k"
    using querySelector_update [OF assms(2) ti] by (simp add: st1_def)
  have b1: "blocks st1 i = Some b" and r1: "db_get (data st1) i = Some r"
    using assms(5,6) by (simp_all add: st1_def)
  have "convertBlock now st1 i t =
     Resolved ()
       (st1\<lparr>blocks := (blocks st1)(i \<mapsto> b\<lparr>type' := t\<rparr>),
           data := db_update (data st1) (r\<lparr>type' := t, updatedAt := now\<rparr>),
           pageContent := (pageContent st1)[k := renderBlock (b\<lparr>type' := t\<rparr>)]\<rparr>)"
    using b1 q1 r1 by (rule convertBlock_step)
  also have "st1\<lparr>blocks := (blocks st1)(i \<mapsto> b\<lparr>type' := t\<rparr>),
           data := db_update (data st1) (r\<lparr>type' := t, updatedAt := now\<rparr>),
           pageContent := (pageContent st1)[k := renderBlock (b\<lparr>type' := t\<rparr>)]\<rparr>
      = st\<lparr>blocks := (blocks st)(i \<mapsto> b\<lparr>type' := t\<rparr>),
             data := db_update (data st) (r\<lparr>type' := t, updatedAt := now\<rparr>),
             pageContent := (pageContent st)[k := renderBlock (b\<lparr>type' := t\<rparr>)]\<rparr>"
    by (simp add: st1_def)
  finally have "convertBlock now st1 (the (blockId target')) t =
     Resolved ()
       (st\<lparr>blocks := (blocks st)(i \<mapsto> b\<lparr>type' := t\<rparr>),
             data := db_update (data st) (r\<lparr>type' := t, updatedAt := now\<rparr>),
             pageContent := (pageContent st)[k := renderBlock (b\<lparr>type' := t\<rparr>)]\<rparr>)"
    by (simp add: ti)
  with unfold c show ?thesis
    by simp
qed

text \<open>
  \<open>selectType\<close> on a target with other text, with a page open and a fresh id: a block of the
  chosen type with no content is created, and its element is put after the target.
\<close>

lemma selectType_creates:
  assumes "targetBlock (blockMenu st) = Some k" and "k < length (pageContent st)"
    and "textContent (pageContent st ! k) \<noteq> Some ''''"
    and "textContent (pageContent st ! k) \<noteq> Some ''/''"
    and "currentPage st = Some pg" and "pg \<noteq> []"
    and "newId \<notin> id' ` set (blocksStore (data st))"
    and "nb = \<lparr>id' = newId, pageId = pg, parentId = None,
             type' = (if t = [] then ''paragraph'' else t), content = [],
             properties = [],
             order = (case ref_block (blocks st) (Element (blockId (pageContent st ! k)) (Some k)) of
                        Some afterBlockData \<Rightarrow> order afterBlockData + 1 | None \<Rightarrow> 0),
             createdAt = now, updatedAt = now\<rparr>"
  shows "BlockMenu_selectType newId now st t =
     Resolved ()
       (BlockMenu_hide
         (st\<lparr>blocks := (blocks st)(newId \<mapsto> nb),
             pageContent := take (Suc k) (pageContent st) @ [renderBlock nb] @ drop (Suc k) (pageContent st),
             data := (data st)\<lparr>blocksStore := blocksStore (data st) @ [nb],
                               requests := requests (data st) @ [Add nb]\<rparr>\<rparr>))"
proof -
  define target' where "target' =
    (if textContent (pageContent st ! k) = Some ''/''
     then (pageContent st ! k)\<lparr>textContent := Some ''''\<rparr> else pageContent st ! k)"
  define st1 where "st1 = st\<lparr>pageContent := (pageContent st)[k := target']\<rparr>"
  define c where "c \<longleftrightarrow>
    blockId target' \<noteq> None \<and> blockId target' \<noteq> Some '''' \<and> textContent target' = Some ''''"
  have unfold: "BlockMenu_selectType newId now st t =
      (if c then
         (case convertBlock now st1 (the (blockId target')) t of
            Rejected e st2 \<Rightarrow> Rejected e st2
          | Resolved u st2 \<Rightarrow> Resolved () (BlockMenu_hide st2))
       else
         (case BlockManager_createBlock newId now st1 t (Some '''')
                 (Some (Element (blockId target') (Some k))) [] of
            Rejected e st2 \<Rightarrow> Rejected e st2
          | Resolved newBlock st2 \<Rightarrow> Resolved () (BlockMenu_hide st2)))"
    unfolding BlockMenu_selectType_def Let_def assms(1) c_def st1_def target'_def
    by (simp only: option.case)
  have t': "target' = pageContent st ! k"
    using assms(4) by (simp add: target'_def)
  have s1: "st1 = st"
    by (simp add: st1_def t')
  have c: "\<not> c"
    using assms(3) by (simp add: c_def t')
  have "BlockManager_createBlock newId now st t (Some '''')
          (Some (Element (blockId (pageContent st ! k)) (Some k))) [] =
     Resolved (Some (renderBlock nb))
       (st\<lparr>blocks := (blocks st)(newId \<mapsto> nb),
           pageContent := insert_element (Some (Element (blockId (pageContent st ! k)) (Some k)))
              (renderBlock nb) (pageContent st),
           data := (data st)\<lparr>blocksStore := blocksStore (data st) @ [nb],
                             requests := requests (data st) @ [Add nb]\<rparr>\<rparr>)"
    using assms(5,6,7)
  proof (rule createBlock_result)
    show "nb = \<lparr>id' = newId, pageId = pg, parentId = None,
             type' = or_default (Some t) ''paragraph'', content = or_default (Some '''') '''',
             properties = [],
             order = (if truthy_ref (Some (Element (blockId (pageContent st ! k)) (Some k))) then
                        (case ref_block (blocks st)
                                (the (Some (Element (blockId (pageContent st ! k)) (Some k)))) of
                           Some afterBlockData \<Rightarrow> order afterBlockData + 1 | None \<Rightarrow> 0)
                      else int (card (dom (blocks st)))),
             createdAt = now, updatedAt = now\<rparr>"
      unfolding assms(8) by (simp add: or_default_def truthy_ref_def)
  qed
  then have "BlockManager_createBlock newId now st1 t (Some '''')
          (Some (Element (blockId target') (Some k))) [] =
     Resolved (Some (renderBlock nb))
       (st\<lparr>blocks := (blocks st)(newId \<mapsto> nb),
           pageContent := take (Suc k) (pageContent st) @ [renderBlock nb] @ drop (Suc k) (pageContent st),
           data := (data st)\<lparr>blocksStore := blocksStore (data st) @ [nb],
                             requests := requests (data st) @ [Add nb]\<rparr>\<rparr>)"
    by (simp add: s1 t' insert_element_def)
  with unfold c show ?thesis
    by simp
qed

text \<open>
  Claim C9. With the menu open on a selected index inside the list of items, any run of
  ArrowUp and ArrowDown keys changes nothing but the selected index, which stays inside the
  list; ArrowDown on the last item and ArrowUp on the first change nothing at all. Enter
  runs \<open>selectType\<close> with the type of the selected item, and when that resolves the menu is
  closed. On a target that is the element of a block of the collection and the store, with
  no text or the lone slash, Enter resolves with that block converted to the selected type,
  in the collection, in the store and on the page, and the menu closed. On a target with
  other text, with a page open and a fresh id, Enter resolves with a new block of the
  selected type in the collection and the store, its element right after the target, and the
  menu closed. Escape and a click outside close the menu and leave the collection, the page
  and the store as they are.
\<close>

theorem blockMenu_navigation:
  assumes "isOpen (blockMenu st)"
    and "0 \<le> selectedIndex (blockMenu st)" and "selectedIndex (blockMenu st) < int (length items)"
    and "set es \<subseteq> {ArrowUp, ArrowDown}"
  shows "(\<exists>k. press_keys newId now items st es = st\<lparr>blockMenu := (blockMenu st)\<lparr>selectedIndex := k\<rparr>\<rparr>
           \<and> 0 \<le> k \<and> k \<le> int (length items) - 1)
     \<and> (selectedIndex (blockMenu st) = int (length items) - 1 \<longrightarrow>
          BlockMenu_keydown newId now items st ArrowDown = Resolved () st)
     \<and> (selectedIndex (blockMenu st) = 0 \<longrightarrow>
          BlockMenu_keydown newId now items st ArrowUp = Resolved () st)
     \<and> BlockMenu_keydown newId now items st Enter
          = BlockMenu_selectType newId now st (items ! nat (selectedIndex (blockMenu st)))
     \<and> (\<forall>st'. BlockMenu_keydown newId now items st Enter = Resolved () st' \<longrightarrow>
          \<not> isOpen (blockMenu st'))
     \<and> (\<forall>k i b r.
          targetBlock (blockMenu st) = Some k \<and> querySelector (pageContent st) i = Some k \<and> i \<noteq> []
          \<and> (textContent (pageContent st ! k) = Some '''' \<or> textContent (pageContent st ! k) = Some ''/'')
          \<and> blocks st i = Some b \<and> db_get (data st) i = Some r \<longrightarrow>
          (let t = items ! nat (selectedIndex (blockMenu st)) in
           BlockMenu_keydown newId now items st Enter =
             Resolved ()
               (BlockMenu_hide
                 (st\<lparr>blocks := (blocks st)(i \<mapsto> b\<lparr>type' := t\<rparr>),
                     data := db_update (data st) (r\<lparr>type' := t, updatedAt := now\<rparr>),
                     pageContent := (pageContent st)[k := renderBlock (b\<lparr>type' := t\<rparr>)]\<rparr>))))
     \<and> (\<forall>k pg.
          targetBlock (blockMenu st) = Some k \<and> k < length (pageContent st)
          \<and> textContent (pageContent st ! k) \<noteq> Some '''' \<and> textContent (pageContent st ! k) \<noteq> Some ''/''
          \<and> currentPage st = Some pg \<and> pg \<noteq> []
          \<and> newId \<notin> id' ` set (blocksStore (data st)) \<longrightarrow>
          (let t = items ! nat (selectedIndex (blockMenu st));
               nb = \<lparr>id' = newId, pageId = pg, parentId = None,
                     type' = (if t = [] then ''paragraph'' else t), content = [],
                     properties = [],
                     order = (case ref_block (blocks st)
                                     (Element (blockId (pageContent st ! k)) (Some k)) of
                                Some afterBlockData \<Rightarrow> order afterBlockData + 1 | None \<Rightarrow> 0),
                     createdAt = now, updatedAt = now\<rparr> in
           BlockMenu_keydown newId now items st Enter =
             Resolved ()
               (BlockMenu_hide
                 (st\<lparr>blocks := (blocks st)(newId \<mapsto> nb),
                     pageContent := take (Suc k) (pageContent st) @ [renderBlock nb]
                                      @ drop (Suc k) (pageContent st),
                     data := (data st)\<lparr>blocksStore := blocksStore (data st) @ [nb],
                                       requests := requests (data st) @ [Add nb]\<rparr>\<rparr>))))
     \<and> BlockMenu_keydown newId now items st Escape = Resolved () (BlockMenu_hide st)
     \<and> BlockMenu_click_outside st = BlockMenu_hide st
     \<and> \<not> isOpen (blockMenu (BlockMenu_hide st))
     \<and> blocks (BlockMenu_hide st) = blocks st
     \<and> pageContent (BlockMenu_hide st) = pageContent st
     \<and> data (BlockMenu_hide st) = data st"
proof -
  from press_arrow_keys [OF assms(1,4,2,3), of newId now] obtain k where k:
    "press_keys newId now items st es = st\<lparr>blockMenu := (blockMenu st)\<lparr>selectedIndex := k\<rparr>\<rparr>"
    "0 \<le> k" "k < int (length items)"
    by blast
  then have "k \<le> int (length items) - 1" by simp
  with k(1,2) have keys:
    "\<exists>k. press_keys newId now items st es = st\<lparr>blockMenu := (blockMenu st)\<lparr>selectedIndex := k\<rparr>\<rparr>
           \<and> 0 \<le> k \<and> k \<le> int (length items) - 1"
    by blast
  have same: "st\<lparr>blockMenu := (blockMenu st)\<lparr>selectedIndex := selectedIndex (blockMenu st)\<rparr>\<rparr> = st"
    by simp
  have down: "selectedIndex (blockMenu st) = int (length items) - 1 \<longrightarrow>
          BlockMenu_keydown newId now items st ArrowDown = Resolved () st"
  proof
    assume l: "selectedIndex (blockMenu st) = int (length items) - 1"
    then have "min (selectedIndex (blockMenu st) + 1) (int (length items) - 1)
        = selectedIndex (blockMenu st)" by simp
    then show "BlockMenu_keydown newId now items st ArrowDown = Resolved () st"
      using assms(1) same by (simp add: BlockMenu_keydown_def Let_def)
  qed
  have up: "selectedIndex (blockMenu st) = 0 \<longrightarrow>
          BlockMenu_keydown newId now items st ArrowUp = Resolved () st"
  proof
    assume l: "selectedIndex (blockMenu st) = 0"
    then have "max (selectedIndex (blockMenu st) - 1) 0 = selectedIndex (blockMenu st)" by simp
    then show "BlockMenu_keydown newId now items st ArrowUp = Resolved () st"
      using assms(1) same by (simp add: BlockMenu_keydown_def Let_def)
  qed
  have enter: "BlockMenu_keydown newId now items st Enter
      = BlockMenu_selectType newId now st (items ! nat (selectedIndex (blockMenu st)))"
    using assms(1,2,3) by (simp add: BlockMenu_keydown_def Let_def item_at_def)
  have closes: "\<forall>st'. BlockMenu_keydown newId now items st Enter = Resolved () st' \<longrightarrow>
          \<not> isOpen (blockMenu st')"
    unfolding enter by (intro allI impI) (rule selectType_closes)
  have converts: "\<forall>k i b r.
          targetBlock (blockMenu st) = Some k \<and> querySelector (pageContent st) i = Some k \<and> i \<noteq> []
          \<and> (textContent (pageContent st ! k) = Some '''' \<or> textContent (pageContent st ! k) = Some ''/'')
          \<and> blocks st i = Some b \<and> db_get (data st) i = Some r \<longrightarrow>
          (let t = items ! nat (selectedIndex (blockMenu st)) in
           BlockMenu_keydown newId now items st Enter =
             Resolved ()
               (BlockMenu_hide
                 (st\<lparr>blocks := (blocks st)(i \<mapsto> b\<lparr>type' := t\<rparr>),
                     data := db_update (data st) (r\<lparr>type' := t, updatedAt := now\<rparr>),
                     pageContent := (pageContent st)[k := renderBlock (b\<lparr>type' := t\<rparr>)]\<rparr>)))"
    unfolding enter Let_def
  proof (intro allI impI, elim conjE)
    fix k i b r
    assume "targetBlock (blockMenu st) = Some k" "querySelector (pageContent st) i = Some k" "i \<noteq> []"
      "textContent (pageContent st ! k) = Some '''' \<or> textContent (pageContent st ! k) = Some ''/''"
      "blocks st i = Some b" "db_get (data st) i = Some r"
    then show "BlockMenu_selectType newId now st (items ! nat (selectedIndex (blockMenu st))) =
             Resolved ()
               (BlockMenu_hide
                 (st\<lparr>blocks := (blocks st)(i \<mapsto> b\<lparr>type' := items ! nat (selectedIndex (blockMenu st))\<rparr>),
                     data := db_update (data st)
                       (r\<lparr>type' := items ! nat (selectedIndex (blockMenu st)), updatedAt := now\<rparr>),
                     pageContent := (pageContent st)
                       [k := renderBlock (b\<lparr>type' := items ! nat (selectedIndex (blockMenu st))\<rparr>)]\<rparr>))"
      by (rule selectType_converts)
  qed
  have creates: "\<forall>k pg.
          targetBlock (blockMenu st) = Some k \<and> k < length (pageContent st)
          \<and> textContent (pageContent st ! k) \<noteq> Some '''' \<and> textContent (pageContent st ! k) \<noteq> Some ''/''
          \<and> currentPage st = Some pg \<and> pg \<noteq> []
          \<and> newId \<notin> id' ` set (blocksStore (data st)) \<longrightarrow>
          (let t = items ! nat (selectedIndex (blockMenu st));
               nb = \<lparr>id' = newId, pageId = pg, parentId = None,
                     type' = (if t = [] then ''paragraph'' else t), content = [],
                     properties = [],
                     order = (case ref_block (blocks st)
                                     (Element (blockId (pageContent st ! k)) (Some k)) of
                                Some afterBlockData \<Rightarrow> order afterBlockData + 1 | None \<Rightarrow> 0),
                     createdAt = now, updatedAt = now\<rparr> in
           BlockMenu_keydown newId now items st Enter =
             Resolved ()
               (BlockMenu_hide
                 (st\<lparr>blocks := (blocks st)(newId \<mapsto> nb),
                     pageContent := take (Suc k) (pageContent st) @ [renderBlock nb]
                                      @ drop (Suc k) (pageContent st),
                     data := (data st)\<lparr>blocksStore := blocksStore (data st) @ [nb],
                                       requests := requests (data st) @ [Add nb]\<rparr>\<rparr>)))"
    unfolding enter Let_def
  proof (intro allI impI, elim conjE)
    fix k pg
    let ?t = "items ! nat (selectedIndex (blockMenu st))"
    let ?nb = "\<lparr>id' = newId, pageId = pg, parentId = None,
                     type' = (if ?t = [] then ''paragraph'' else ?t), content = [],
                     properties = [],
                     order = (case ref_block (blocks st)
                                     (Element (blockId (pageContent st ! k)) (Some k)) of
                                Some afterBlockData \<Rightarrow> order afterBlockData + 1 | None \<Rightarrow> 0),
                     createdAt = now, updatedAt = now\<rparr>"
    assume "targetBlock (blockMenu st) = Some k" "k < length (pageContent st)"
      "textContent (pageContent st ! k) \<noteq> Some ''''" "textContent (pageContent st ! k) \<noteq> Some ''/''"
      "currentPage st = Some pg" "pg \<noteq> []" "newId \<notin> id' ` set (blocksStore (data st))"
    then show "BlockMenu_selectType newId now st ?t =
             Resolved ()
               (BlockMenu_hide
                 (st\<lparr>blocks := (blocks st)(newId \<mapsto> ?nb),
                     pageContent := take (Suc k) (pageContent st) @ [renderBlock ?nb]
                                      @ drop (Suc k) (pageContent st),
                     data := (data st)\<lparr>blocksStore := blocksStore (data st) @ [?nb],
                                       requests := requests (data st) @ [Add ?nb]\<rparr>\<rparr>))"
      using refl by (rule selectType_creates)
  qed
  have esc: "BlockMenu_keydown newId now items st Escape = Resolved () (BlockMenu_hide st)"
    using assms(1) by (simp add: BlockMenu_keydown_def Let_def)
  have click: "BlockMenu_click_outside st = BlockMenu_hide st"
    using assms(1) by (simp add: BlockMenu_click_outside_def)
  have frame: "blocks (BlockMenu_hide st) = blocks st" "pageContent (BlockMenu_hide st) = pageContent st"
    "data (BlockMenu_hide st) = data st"
    by (simp_all add: BlockMenu_hide_def)
  from keys down up enter closes converts creates esc click hide_closed [of st] frame
  show ?thesis by (intro conjI)
qed

theorem blockMenu_navigation_witness:
  "isOpen (blockMenu (BlockMenu_show example_app 0))
   \<and> 0 \<le> selectedIndex (blockMenu (BlockMenu_show example_app 0))
   \<and> selectedIndex (blockMenu (BlockMenu_show example_app 0)) < int (length blockTypes)
   \<and> set [ArrowUp, ArrowDown, ArrowDown] \<subseteq> {ArrowUp, ArrowDown}
   \<and> (\<exists>k. press_keys ''n1'' 9 blockTypes (BlockMenu_show example_app 0) [ArrowUp, ArrowDown, ArrowDown]
          = (BlockMenu_show example_app 0)
              \<lparr>blockMenu := (blockMenu (BlockMenu_show example_app 0))\<lparr>selectedIndex := k\<rparr>\<rparr>
        \<and> 0 \<le> k \<and> k \<le> int (length blockTypes) - 1)
   \<and> BlockMenu_keydown ''n1'' 9 blockTypes (BlockMenu_show example_app 0) ArrowUp
       = Resolved () (BlockMenu_show example_app 0)
   \<and> BlockMenu_keydown ''n1'' 9 blockTypes (BlockMenu_show example_app 0) Escape
       = Resolved () (BlockMenu_hide (BlockMenu_show example_app 0))
   \<and> selectedIndex (blockMenu (press_keys ''n1'' 9 blockTypes (BlockMenu_show example_app 0)
        [ArrowUp, ArrowDown, ArrowDown])) = 2
   \<and> BlockMenu_keydown ''n1'' 9 blockTypes
        (press_keys ''n1'' 9 blockTypes (BlockMenu_show example_app 0) [ArrowUp, ArrowDown, ArrowDown])
        Enter
       = Resolved ()
           (example_app
             \<lparr>blocks := (blocks example_app)(''a'' \<mapsto> (example_block ''a'' None 0)\<lparr>type' := ''heading2''\<rparr>),
              data := db_update example_db
                        ((example_block ''a'' None 0)\<lparr>type' := ''heading2'', updatedAt := 9\<rparr>),
              pageContent := (pageContent example_app)
                        [0 := renderBlock ((example_block ''a'' None 0)\<lparr>type' := ''heading2''\<rparr>)],
              blockMenu := \<lparr>isOpen = False, selectedIndex = 2, targetBlock = None\<rparr>\<rparr>)
   \<and> BlockMenu_keydown ''n1'' 9 blockTypes (BlockMenu_show typed_app 0) Enter
       = Resolved ()
           (typed_app
             \<lparr>blocks := [''a'' \<mapsto> typed_block, ''n1'' \<mapsto> new_paragraph],
              pageContent := [renderBlock typed_block, renderBlock new_paragraph],
              data := \<lparr>blocksStore = [typed_block, new_paragraph], requests = [Add new_paragraph]\<rparr>,
              blockMenu := \<lparr>isOpen = False, selectedIndex = 0, targetBlock = None\<rparr>\<rparr>)"
proof -
  let ?st = "BlockMenu_show example_app 0"
  have h1: "isOpen (blockMenu ?st)" by (simp add: BlockMenu_show_def)
  have h2: "0 \<le> selectedIndex (blockMenu ?st)" by (simp add: BlockMenu_show_def)
  have h3: "selectedIndex (blockMenu ?st) < int (length blockTypes)"
    by (simp add: BlockMenu_show_def blockTypes_def)
  have h4: "set [ArrowUp, ArrowDown, ArrowDown] \<subseteq> {ArrowUp, ArrowDown}" by simp
  have z: "selectedIndex (blockMenu ?st) = 0" by (simp add: BlockMenu_show_def)
  have run: "selectedIndex (blockMenu (press_keys ''n1'' 9 blockTypes ?st [ArrowUp, ArrowDown, ArrowDown])) = 2"
    by (simp add: BlockMenu_keydown_def Let_def BlockMenu_show_def blockTypes_def)
  note nav = blockMenu_navigation [OF h1 h2 h3 h4, of "''n1''" 9]
  from nav have keys: "\<exists>k. press_keys ''n1'' 9 blockTypes ?st [ArrowUp, ArrowDown, ArrowDown]
          = ?st\<lparr>blockMenu := (blockMenu ?st)\<lparr>selectedIndex := k\<rparr>\<rparr>
        \<and> 0 \<le> k \<and> k \<le> int (length blockTypes) - 1"
    by (rule conjunct1)
  from nav z have up: "BlockMenu_keydown ''n1'' 9 blockTypes ?st ArrowUp = Resolved () ?st"
    by blast
  from nav have esc: "BlockMenu_keydown ''n1'' 9 blockTypes ?st Escape = Resolved () (BlockMenu_hide ?st)"
    by blast

  let ?s2 = "example_app\<lparr>blockMenu := \<lparr>isOpen = True, selectedIndex = 2, targetBlock = Some 0\<rparr>\<rparr>"
  let ?a = "example_block ''a'' None 0"
  have pk: "press_keys ''n1'' 9 blockTypes ?st [ArrowUp, ArrowDown, ArrowDown] = ?s2"
    by (simp add: BlockMenu_keydown_def Let_def BlockMenu_show_def blockTypes_def)
  have c1: "isOpen (blockMenu ?s2)" by simp
  have c2: "0 \<le> selectedIndex (blockMenu ?s2)" by simp
  have c3: "selectedIndex (blockMenu ?s2) < int (length blockTypes)"
    by (simp add: blockTypes_def)
  have c4: "set [] \<subseteq> {ArrowUp, ArrowDown}" by simp
  have t2: "blockTypes ! nat (selectedIndex (blockMenu ?s2)) = ''heading2''"
    by (simp add: blockTypes_def)
  have pre2: "targetBlock (blockMenu ?s2) = Some 0 \<and> querySelector (pageContent ?s2) ''a'' = Some 0
      \<and> ''a'' \<noteq> []
      \<and> (textContent (pageContent ?s2 ! 0) = Some '''' \<or> textContent (pageContent ?s2 ! 0) = Some ''/'')
      \<and> blocks ?s2 ''a'' = Some ?a \<and> db_get (data ?s2) ''a'' = Some ?a"
    by (simp add: example_app_blocks(1) example_app_store(2))
      (simp add: example_app_def example_db_def example_block_def renderBlock_def has_content_def)
  from blockMenu_navigation [OF c1 c2 c3 c4, of "''n1''" 9] pre2
  have "let t = blockTypes ! nat (selectedIndex (blockMenu ?s2)) in
        BlockMenu_keydown ''n1'' 9 blockTypes ?s2 Enter =
          Resolved ()
            (BlockMenu_hide
              (?s2\<lparr>blocks := (blocks ?s2)(''a'' \<mapsto> ?a\<lparr>type' := t\<rparr>),
                  data := db_update (data ?s2) (?a\<lparr>type' := t, updatedAt := 9\<rparr>),
                  pageContent := (pageContent ?s2)[0 := renderBlock (?a\<lparr>type' := t\<rparr>)]\<rparr>))"
    by blast
  then have conv: "BlockMenu_keydown ''n1'' 9 blockTypes
        (press_keys ''n1'' 9 blockTypes ?st [ArrowUp, ArrowDown, ArrowDown]) Enter
       = Resolved ()
           (example_app
             \<lparr>blocks := (blocks example_app)(''a'' \<mapsto> ?a\<lparr>type' := ''heading2''\<rparr>),
              data := db_update example_db (?a\<lparr>type' := ''heading2'', updatedAt := 9\<rparr>),
              pageContent := (pageContent example_app)[0 := renderBlock (?a\<lparr>type' := ''heading2''\<rparr>)],
              blockMenu := \<lparr>isOpen = False, selectedIndex = 2, targetBlock = None\<rparr>\<rparr>)"
    unfolding pk Let_def t2 by (simp add: BlockMenu_hide_def example_app_def)

  let ?s3 = "BlockMenu_show typed_app 0"
  have d1: "isOpen (blockMenu ?s3)" by (simp add: BlockMenu_show_def)
  have d2: "0 \<le> selectedIndex (blockMenu ?s3)" by (simp add: BlockMenu_show_def)
  have d3: "selectedIndex (blockMenu ?s3) < int (length blockTypes)"
    by (simp add: BlockMenu_show_def blockTypes_def)
  have t3: "blockTypes ! nat (selectedIndex (blockMenu ?s3)) = ''paragraph''"
    by (simp add: BlockMenu_show_def blockTypes_def)
  have pre3: "targetBlock (blockMenu ?s3) = Some 0 \<and> 0 < length (pageContent ?s3)
      \<and> textContent (pageContent ?s3 ! 0) \<noteq> Some '''' \<and> textContent (pageContent ?s3 ! 0) \<noteq> Some ''/''
      \<and> currentPage ?s3 = Some ''p1'' \<and> ''p1'' \<noteq> []
      \<and> ''n1'' \<notin> id' ` set (blocksStore (data ?s3))"
    by (simp add: BlockMenu_show_def typed_app_def typed_block_def example_block_def
        renderBlock_def has_content_def)
  from blockMenu_navigation [OF d1 d2 d3 c4, of "''n1''" 9] pre3
  have "let t = blockTypes ! nat (selectedIndex (blockMenu ?s3));
            nb = \<lparr>id' = ''n1'', pageId = ''p1'', parentId = None,
                  type' = (if t = [] then ''paragraph'' else t), content = [],
                  properties = [],
                  order = (case ref_block (blocks ?s3)
                                  (Element (blockId (pageContent ?s3 ! 0)) (Some 0)) of
                             Some afterBlockData \<Rightarrow> order afterBlockData + 1 | None \<Rightarrow> 0),
                  createdAt = 9, updatedAt = 9\<rparr> in
        BlockMenu_keydown ''n1'' 9 blockTypes ?s3 Enter =
          Resolved ()
            (BlockMenu_hide
              (?s3\<lparr>blocks := (blocks ?s3)(''n1'' \<mapsto> nb),
                  pageContent := take (Suc 0) (pageContent ?s3) @ [renderBlock nb]
                                   @ drop (Suc 0) (pageContent ?s3),
                  data := (data ?s3)\<lparr>blocksStore := blocksStore (data ?s3) @ [nb],
                                     requests := requests (data ?s3) @ [Add nb]\<rparr>\<rparr>))"
    by blast
  then have crea: "BlockMenu_keydown ''n1'' 9 blockTypes ?s3 Enter
       = Resolved ()
           (typed_app
             \<lparr>blocks := [''a'' \<mapsto> typed_block, ''n1'' \<mapsto> new_paragraph],
              pageContent := [renderBlock typed_block, renderBlock new_paragraph],
              data := \<lparr>blocksStore = [typed_block, new_paragraph], requests = [Add new_paragraph]\<rparr>,
              blockMenu := \<lparr>isOpen = False, selectedIndex = 0, targetBlock = None\<rparr>\<rparr>)"
    unfolding Let_def t3
    by (simp add: BlockMenu_hide_def BlockMenu_show_def typed_app_def ref_block_def
        renderBlock_def typed_block_def example_block_def new_paragraph_def)
  from h1 h2 h3 h4 keys up esc run conv crea show ?thesis by (intro conjI)
qed

section \<open>Inline links\<close>

lemma match_from_left_suffix:
  "match_from_left here s = Some m \<Longrightarrow> \<exists>k. here (drop k s) = Some m"
proof (induction s)
  case Nil
  then show ?case by (auto intro: exI [of _ 0])
next
  case (Cons x xs)
  show ?case
  proof (cases "here (x # xs)")
    case None
    with Cons.prems have "match_from_left here xs = Some m" by simp
    from Cons.IH [OF this] obtain k where "here (drop k xs) = Some m" ..
    then have "here (drop (Suc k) (x # xs)) = Some m" by simp
    then show ?thesis ..
  next
    case (Some m')
    with Cons.prems have "here (drop 0 (x # xs)) = Some m" by simp
    then show ?thesis ..
  qed
qed

lemma delimited_here_whole:
  assumes "delimited_here d c s = Some (m0, groups)"
  shows "s = m0 \<and> suffix d s"
proof -
  from assms have p: "prefix d s"
    by (auto simp: delimited_here_def split: if_splits)
  let ?r = "drop (length d) s"
  from assms p have r: "dropWhile (\<lambda>x. x \<noteq> c) ?r = d"
    and m: "m0 = d @ takeWhile (\<lambda>x. x \<noteq> c) ?r @ d"
    by (auto simp: delimited_here_def Let_def split: if_splits)
  from p have "s = d @ ?r"
    by (auto simp: prefix_def)
  also have "?r = takeWhile (\<lambda>x. x \<noteq> c) ?r @ dropWhile (\<lambda>x. x \<noteq> c) ?r"
    by simp
  finally have e: "s = d @ takeWhile (\<lambda>x. x \<noteq> c) ?r @ d"
    by (simp only: r)
  then have "s = (d @ takeWhile (\<lambda>x. x \<noteq> c) ?r) @ d"
    by simp
  then have "suffix d s"
    by (rule suffixI)
  with e m show ?thesis by simp
qed

lemma link_here_whole:
  assumes "link_here s = Some (m0, groups)"
  shows "\<exists>linkText linkUrl. groups = [linkText, linkUrl]
     \<and> m0 = ''['' @ linkText @ '']('' @ linkUrl @ '')'' \<and> s = m0"
proof -
  let ?r = "drop 1 s"
  let ?t = "takeWhile (\<lambda>x. x \<noteq> CHR '']'') ?r"
  let ?r1 = "dropWhile (\<lambda>x. x \<noteq> CHR '']'') ?r"
  let ?r2 = "drop 2 ?r1"
  let ?u = "takeWhile (\<lambda>x. x \<noteq> CHR '')'') ?r2"
  let ?r3 = "dropWhile (\<lambda>x. x \<noteq> CHR '')'') ?r2"
  from assms have p: "prefix ''['' s"
    by (auto simp: link_here_def split: if_splits)
  with assms have p1: "prefix '']('' ?r1"
    by (auto simp: link_here_def Let_def split: if_splits)
  with assms p have r3: "?r3 = '')''" and g: "groups = [?t, ?u]"
    and m: "m0 = ''['' @ ?t @ '']('' @ ?u @ '')''"
    by (auto simp: link_here_def Let_def split: if_splits)
  from p have "s = ''['' @ ?r"
    by (auto simp: prefix_def)
  moreover have "?r = ?t @ ?r1" by simp
  moreover from p1 have "?r1 = '']('' @ ?r2"
    by (auto simp: prefix_def)
  moreover have "?r2 = ?u @ ?r3" by simp
  ultimately have "s = ''['' @ ?t @ '']('' @ ?u @ ?r3"
    by (metis append.assoc)
  with r3 m have "s = m0" by simp
  with g m show ?thesis by blast
qed

lemma delimited_no_paren:
  assumes "d \<noteq> []" and "last d \<noteq> CHR '')''" and "s \<noteq> []" and "last s = CHR '')''"
  shows "match_from_left (delimited_here d c) s = None"
proof (rule ccontr)
  assume "match_from_left (delimited_here d c) s \<noteq> None"
  then obtain m0 groups where "match_from_left (delimited_here d c) s = Some (m0, groups)"
    by auto
  from match_from_left_suffix [OF this] obtain k where "delimited_here d c (drop k s) = Some (m0, groups)" ..
  from delimited_here_whole [OF this] have "suffix d (drop k s)" by blast
  then have "suffix d s"
    by (rule suffix_order.trans) (rule suffix_drop)
  then obtain pre where "s = pre @ d"
    by (auto simp: suffix_def)
  with assms(1) have "last s = last d" by simp
  with assms(2,4) show False by simp
qed

lemma link_match_shape:
  assumes "match_from_left link_here s = Some (m0, groups)"
  shows "\<exists>linkText linkUrl. groups = [linkText, linkUrl]
     \<and> m0 = ''['' @ linkText @ '']('' @ linkUrl @ '')'' \<and> suffix m0 s"
proof -
  from match_from_left_suffix [OF assms] obtain k where k: "link_here (drop k s) = Some (m0, groups)" ..
  from link_here_whole [OF k] obtain linkText linkUrl where l:
    "groups = [linkText, linkUrl]" "m0 = ''['' @ linkText @ '']('' @ linkUrl @ '')''" "drop k s = m0"
    by blast
  have "suffix (drop k s) s" by (rule suffix_drop)
  with l show ?thesis by auto
qed

lemma first_match_link:
  assumes "match_from_left link_here s = Some (m0, groups)"
  shows "first_match patterns s =
     Some (\<lparr>regex = match_from_left link_here, format = Link, wrapper = ''''\<rparr>, m0, groups)"
proof -
  from link_match_shape [OF assms] obtain pre t u where "s = pre @ ''['' @ t @ '']('' @ u @ '')''"
    by (auto simp: suffix_def)
  then have s: "s \<noteq> []" "last s = CHR '')''"
    by simp_all
  have "match_from_left (delimited_here d c) s = None" if "d \<noteq> []" "last d \<noteq> CHR '')''" for d c
    using that s by (rule delimited_no_paren)
  then show ?thesis
    using assms by (simp add: patterns_def)
qed

text \<open>
  Claim C8. When the link pattern matches the text before the cursor in a text node (the
  offset of a range lies within the text), the
  match is the end of that text and has the shape \<open>[text](url)\<close>, and no other pattern takes
  precedence. The URL is sanitized first: if it is rejected the node is left as it was and
  nothing is inserted, the caret staying where it was; otherwise the matched span is taken
  out and an anchor with the sanitized URL and the link text stands in its place, between
  the text before the match and the text after the cursor, with the caret right after it.
  In both cases the default action of the space key is prevented.
\<close>

theorem checkInlineMarkdown_link:
  assumes "isTextNode sel"
    and "match_from_left link_here (take (startOffset sel) (nodeText sel)) = Some (m0, groups)"
    and "startOffset sel \<le> length (nodeText sel)"
  shows "\<exists>linkText linkUrl. groups = [linkText, linkUrl]
     \<and> m0 = ''['' @ linkText @ '']('' @ linkUrl @ '')''
     \<and> take (startOffset sel) (nodeText sel) = take (startOffset sel - length m0) (nodeText sel) @ m0
     \<and> (Editor_sanitizeUrl new_URL (JString linkUrl) = '''' \<longrightarrow>
          checkInlineMarkdown new_URL (Some sel) = \<lparr>defaultPrevented = True, replaced = Untouched, caret = Unmoved\<rparr>)
     \<and> (Editor_sanitizeUrl new_URL (JString linkUrl) \<noteq> '''' \<longrightarrow>
          checkInlineMarkdown new_URL (Some sel) =
            \<lparr>defaultPrevented = True,
             replaced = Inserted (take (startOffset sel - length m0) (nodeText sel))
               \<lparr>tagName = ''a'', elementText = linkText,
                href = Some (Editor_sanitizeUrl new_URL (JString linkUrl))\<rparr>
               (drop (startOffset sel) (nodeText sel)),
             caret = AfterInserted\<rparr>)"
proof -
  let ?tb = "take (startOffset sel) (nodeText sel)"
  from link_match_shape [OF assms(2)] obtain linkText linkUrl where l:
    "groups = [linkText, linkUrl]" "m0 = ''['' @ linkText @ '']('' @ linkUrl @ '')''" "suffix m0 ?tb"
    by blast
  from l(3) obtain pre where pre: "?tb = pre @ m0"
    by (auto simp: suffix_def)
  have len: "length ?tb = startOffset sel"
    using assms(3) by simp
  with pre have n: "startOffset sel - length m0 = length pre"
    by (metis add_diff_cancel_right' length_append)
  have "take (startOffset sel - length m0) (nodeText sel) = take (length pre) ?tb"
    using n len by (simp add: min_def)
  also have "\<dots> = pre"
    by (simp only: pre) simp
  finally have span: "?tb = take (startOffset sel - length m0) (nodeText sel) @ m0"
    using pre by simp
  note fm = first_match_link [OF assms(2)]
  have bad: "checkInlineMarkdown new_URL (Some sel) = \<lparr>defaultPrevented = True, replaced = Untouched, caret = Unmoved\<rparr>"
    if "Editor_sanitizeUrl new_URL (JString linkUrl) = ''''"
    using that assms(1) by (simp add: checkInlineMarkdown_def Let_def fm l(1))
  have good: "checkInlineMarkdown new_URL (Some sel) =
            \<lparr>defaultPrevented = True,
             replaced = Inserted (take (startOffset sel - length m0) (nodeText sel))
               \<lparr>tagName = ''a'', elementText = linkText,
                href = Some (Editor_sanitizeUrl new_URL (JString linkUrl))\<rparr>
               (drop (startOffset sel) (nodeText sel)),
             caret = AfterInserted\<rparr>"
    if "Editor_sanitizeUrl new_URL (JString linkUrl) \<noteq> ''''"
    using that assms(1) by (simp add: checkInlineMarkdown_def Let_def fm l(1))
  from l(1,2) span bad good show ?thesis by blast
qed

lemma match_from_left_exists:
  "here r = Some m \<Longrightarrow> \<exists>m'. match_from_left here (pre @ r) = Some m'"
proof (induction pre)
  case Nil
  then show ?case by (cases r) simp_all
next
  case (Cons x xs)
  then show ?case by (cases "here (x # xs @ r)") simp_all
qed

lemma split_at_char:
  "c \<notin> set t \<Longrightarrow>
     takeWhile (\<lambda>x. x \<noteq> c) (t @ c # r) = t \<and> dropWhile (\<lambda>x. x \<noteq> c) (t @ c # r) = c # r"
  by (induction t) auto

text \<open>Every text that ends in \<open>[text](url)\<close> is matched by the link pattern.\<close>

lemma link_pattern_matches:
  assumes "t \<noteq> []" and "CHR '']'' \<notin> set t" and "u \<noteq> []" and "CHR '')'' \<notin> set u"
  shows "\<exists>m. match_from_left link_here (pre @ ''['' @ t @ '']('' @ u @ '')'') = Some m"
proof -
  have "link_here (''['' @ t @ '']('' @ u @ '')'') =
      Some (''['' @ t @ '']('' @ u @ '')'', [t, u])"
    using assms split_at_char [of "CHR '']''" t "CHR ''('' # u @ '')''"]
      split_at_char [of "CHR '')''" u "[]"]
    by (simp add: link_here_def Let_def)
  then show ?thesis by (rule match_from_left_exists)
qed

theorem checkInlineMarkdown_link_witness:
  "isTextNode \<lparr>isTextNode = True, nodeText = ''see [site](https://example.com) now'', startOffset = 31\<rparr>
   \<and> match_from_left link_here (take 31 ''see [site](https://example.com) now'')
       = Some (''[site](https://example.com)'', [''site'', ''https://example.com''])
   \<and> 31 \<le> length ''see [site](https://example.com) now''
   \<and> checkInlineMarkdown (URL_protocol (\<lambda>s. True))
        (Some \<lparr>isTextNode = True, nodeText = ''see [site](https://example.com) now'', startOffset = 31\<rparr>)
       = \<lparr>defaultPrevented = True,
          replaced = Inserted ''see ''
            \<lparr>tagName = ''a'', elementText = ''site'', href = Some ''https://example.com''\<rparr> '' now'',
          caret = AfterInserted\<rparr>
   \<and> match_from_left link_here (take 23 ''go [x](javascript:void) on'')
       = Some (''[x](javascript:void)'', [''x'', ''javascript:void''])
   \<and> checkInlineMarkdown (URL_protocol (\<lambda>s. True))
        (Some \<lparr>isTextNode = True, nodeText = ''go [x](javascript:void) on'', startOffset = 23\<rparr>)
       = \<lparr>defaultPrevented = True, replaced = Untouched, caret = Unmoved\<rparr>"
proof -
  let ?sel = "\<lparr>isTextNode = True, nodeText = ''see [site](https://example.com) now'', startOffset = 31\<rparr>"
  let ?bad = "\<lparr>isTextNode = True, nodeText = ''go [x](javascript:void) on'', startOffset = 23\<rparr>"
  have m: "match_from_left link_here (take 31 ''see [site](https://example.com) now'')
       = Some (''[site](https://example.com)'', [''site'', ''https://example.com''])"
    by (simp add: link_here_def)
  have mb: "match_from_left link_here (take 23 ''go [x](javascript:void) on'')
       = Some (''[x](javascript:void)'', [''x'', ''javascript:void''])"
    by (simp add: link_here_def)
  have ok: "Editor_sanitizeUrl (URL_protocol (\<lambda>s. True)) (JString ''https://example.com'')
      = ''https://example.com''"
    by (simp add: Editor_sanitizeUrl_eq sanitizeUrl_https_example)
  have no: "Editor_sanitizeUrl (URL_protocol (\<lambda>s. True)) (JString ''javascript:void'') = ''''"
    by (simp add: Editor_sanitizeUrl_def Let_def URL_protocol_def url_scheme_def url_input_def
      strip_def trim_def isWhiteSpace_def isC0OrSpace_def isTabOrNewline_def scheme_start_state_def
      isAlpha_def isSchemeChar_def toLower_def asciiUpper_def asciiLower_def asciiDigit_def)
  have "checkInlineMarkdown (URL_protocol (\<lambda>s. True)) (Some ?sel)
       = \<lparr>defaultPrevented = True,
          replaced = Inserted ''see ''
            \<lparr>tagName = ''a'', elementText = ''site'', href = Some ''https://example.com''\<rparr> '' now'',
          caret = AfterInserted\<rparr>"
    using checkInlineMarkdown_link [of ?sel "''[site](https://example.com)''"
        "[''site'', ''https://example.com'']" "URL_protocol (\<lambda>s. True)"] m ok
    by simp
  moreover have "checkInlineMarkdown (URL_protocol (\<lambda>s. True)) (Some ?bad)
       = \<lparr>defaultPrevented = True, replaced = Untouched, caret = Unmoved\<rparr>"
    using checkInlineMarkdown_link [of ?bad "''[x](javascript:void)''"
        "[''x'', ''javascript:void'']" "URL_protocol (\<lambda>s. True)"] mb no
    by simp
  ultimately show ?thesis
    using m mb by simp
qed

end
